theory Spec2Isabelle
  imports Main "HOL-Library.AList"
begin

section \<open>JSON values and JavaScript text conversions\<close>

text \<open>
  The input of the encoder is the \<^verbatim>\<open>JSONValue\<close> type of \<^verbatim>\<open>scolt.ts\<close>. Objects are
  association lists of their own properties in property enumeration order (keys are
  distinct in a parsed JSON document); numbers are the integers below \<open>10\<^sup>2\<^sup>1\<close> in
  magnitude, whose \<^verbatim>\<open>String(n)\<close> is the decimal numeral; strings are lists of 8-bit code
  units (U+0000..U+00FF).
\<close>

datatype json =
  JNull
| JBool bool
| JNum int
| JStr string
| JArr "json list"
| JObj "(string \<times> json) list"

text \<open>
  The errors the engine can raise: the TypeError of reading a property of null, of
  applying \<^verbatim>\<open>in\<close> to a primitive or of converting to a string an object that has no
  callable \<^verbatim>\<open>toString\<close>, and the RangeError of an exhausted call stack.
\<close>

datatype error = TypeError | RangeError

text \<open>
  Property lookups (\<^verbatim>\<open>key in object\<close>, \<^verbatim>\<open>object[key]\<close>) are modelled on own properties.
  A plain object also inherits the members of \<^verbatim>\<open>Object.prototype\<close>, whose names are
  listed here; statements about lookups are made for keys outside this list.
\<close>

definition objectPrototypeKeys :: "string list" where
  "objectPrototypeKeys =
     [''constructor'', ''hasOwnProperty'', ''isPrototypeOf'', ''propertyIsEnumerable'',
      ''toLocaleString'', ''toString'', ''valueOf'', ''__proto__'', ''__defineGetter__'',
      ''__defineSetter__'', ''__lookupGetter__'', ''__lookupSetter__'']"

fun showNat :: "nat \<Rightarrow> string" where
  "showNat n =
     (if n < 10 then [''0123456789'' ! n]
      else showNat (n div 10) @ [''0123456789'' ! (n mod 10)])"

declare showNat.simps [simp del]

definition showInt :: "int \<Rightarrow> string" where
  "showInt n = (if n < 0 then CHR ''-'' # showNat (nat (- n)) else showNat (nat n))"

text \<open>\<^verbatim>\<open>Array.prototype.join\<close> on an array of strings.\<close>

fun join :: "string \<Rightarrow> string list \<Rightarrow> string" where
  "join sep [] = []"
| "join sep [x] = x"
| "join sep (x # y # ys) = x @ sep @ join sep (y # ys)"

text \<open>
  \<^verbatim>\<open>array.map(callback)\<close> for a callback that may throw: the first exception ends the
  loop.
\<close>

fun mapResult :: "('a \<Rightarrow> error + 'b) \<Rightarrow> 'a list \<Rightarrow> error + 'b list" where
  "mapResult f [] = Inr []"
| "mapResult f (x # xs) =
     (case f x of
        Inl e \<Rightarrow> Inl e
      | Inr y \<Rightarrow>
          (case mapResult f xs of
             Inl e \<Rightarrow> Inl e
           | Inr ys \<Rightarrow> Inr (y # ys)))"

text \<open>
  \<^verbatim>\<open>String(value)\<close>: an array is its elements joined by commas, where null elements
  become the empty text and nested arrays lose their brackets. An object is converted by
  its \<^verbatim>\<open>toString\<close> method: the inherited one gives the fixed text \<^verbatim>\<open>[object Object]\<close>,
  while an own property \<^verbatim>\<open>toString\<close> of a JSON document is not callable, and then neither
  an own nor the inherited \<^verbatim>\<open>valueOf\<close> gives a primitive, so the conversion throws a
  TypeError.
\<close>

fun jsString :: "json \<Rightarrow> error + string"
and jsStringElements :: "json list \<Rightarrow> error + string list" where
  "jsString JNull = Inr ''null''"
| "jsString (JBool b) = Inr (if b then ''true'' else ''false'')"
| "jsString (JNum n) = Inr (showInt n)"
| "jsString (JStr s) = Inr s"
| "jsString (JArr xs) =
     (case jsStringElements xs of
        Inl e \<Rightarrow> Inl e
      | Inr texts \<Rightarrow> Inr (join '','' texts))"
| "jsString (JObj kvs) =
     (if ''toString'' \<in> set (map fst kvs) then Inl TypeError else Inr ''[object Object]'')"
| "jsStringElements [] = Inr []"
| "jsStringElements (v # vs) =
     (case (if v = JNull then Inr [] else jsString v) of
        Inl e \<Rightarrow> Inl e
      | Inr text \<Rightarrow>
          (case jsStringElements vs of
             Inl e \<Rightarrow> Inl e
           | Inr texts \<Rightarrow> Inr (text # texts)))"

definition isSpace :: "char \<Rightarrow> bool" where
  "isSpace c = (of_char c \<in> {9, 10, 11, 12, 13, 32, 160 :: nat})"

definition isDigit :: "char \<Rightarrow> bool" where
  "isDigit c = (48 \<le> (of_char c :: nat) \<and> (of_char c :: nat) \<le> 57)"

definition isWordChar :: "char \<Rightarrow> bool" where
  "isWordChar c =
     (let n = (of_char c :: nat) in
      (65 \<le> n \<and> n \<le> 90) \<or> (97 \<le> n \<and> n \<le> 122) \<or> (48 \<le> n \<and> n \<le> 57) \<or> n = 95)"

definition dquote :: char where
  "dquote = CHR 0x22"

definition backslash :: char where
  "backslash = CHR 0x5C"

text \<open>\<^verbatim>\<open>value.replace(/"/g, '\\"')\<close>.\<close>

definition escapeQuotes :: "string \<Rightarrow> string" where
  "escapeQuotes s = concat (map (\<lambda>c. if c = dquote then [backslash, dquote] else [c]) s)"

definition serializePrimitive :: "json \<Rightarrow> error + string" where
  "serializePrimitive v =
     (case v of
        JNull \<Rightarrow> Inr ''null''
      | JNum n \<Rightarrow> jsString v
      | JBool b \<Rightarrow> jsString v
      | JStr s \<Rightarrow>
          Inr (if list_all isSpace s then [dquote, dquote]
               else if list_ex (\<lambda>c. c = CHR '','' \<or> isSpace c \<or> c = dquote) s
                    then [dquote] @ escapeQuotes s @ [dquote]
                    else s)
      | _ \<Rightarrow> jsString v)"

text \<open>\<^verbatim>\<open>JSON.stringify\<close>, the deep literal serialization used as cache and dedup key.\<close>

definition hexDigit :: "nat \<Rightarrow> char" where
  "hexDigit n = ''0123456789abcdef'' ! n"

definition escapeChar :: "char \<Rightarrow> string" where
  "escapeChar c =
     (let n = (of_char c :: nat) in
      if c = dquote then [backslash, dquote]
      else if c = backslash then [backslash, backslash]
      else if n = 8 then [backslash, CHR ''b'']
      else if n = 12 then [backslash, CHR ''f'']
      else if n = 10 then [backslash, CHR ''n'']
      else if n = 13 then [backslash, CHR ''r'']
      else if n = 9 then [backslash, CHR ''t'']
      else if n < 32 then [backslash, CHR ''u'', CHR ''0'', CHR ''0'', hexDigit (n div 16), hexDigit (n mod 16)]
      else [c])"

definition quoteJSON :: "string \<Rightarrow> string" where
  "quoteJSON s = [dquote] @ concat (map escapeChar s) @ [dquote]"

fun stringify :: "json \<Rightarrow> string" where
  "stringify JNull = ''null''"
| "stringify (JBool b) = (if b then ''true'' else ''false'')"
| "stringify (JNum n) = showInt n"
| "stringify (JStr s) = quoteJSON s"
| "stringify (JArr xs) = ''['' @ join '','' (map stringify xs) @ '']''"
| "stringify (JObj kvs) =
     ''{'' @ join '','' (map (\<lambda>(k, v). quoteJSON k @ '':'' @ stringify v) kvs) @ ''}''"


section \<open>Property access\<close>

text \<open>
  The own property keys of an ordinary object enumerate the array-index keys first, in
  ascending numeric order, and then the other keys in insertion order. An array-index key
  is the decimal numeral, without leading zeros, of an integer below \<open>2\<^sup>3\<^sup>2 - 1\<close>.
\<close>

definition keyIndex :: "string \<Rightarrow> nat option" where
  "keyIndex k =
     (let n = foldl (\<lambda>n c. 10 * n + (of_char c - 48)) (0 :: nat) k in
      if k \<noteq> [] \<and> list_all isDigit k \<and> (k = ''0'' \<or> hd k \<noteq> CHR ''0'') \<and> n < 4294967295
      then Some n else None)"

definition ownPropertyOrder :: "(string \<times> 'a) list \<Rightarrow> (string \<times> 'a) list" where
  "ownPropertyOrder kvs =
     map snd (sort_key fst
       (List.map_filter (\<lambda>kv. map_option (\<lambda>n. (n, kv)) (keyIndex (fst kv))) kvs)) @
     filter (\<lambda>kv. keyIndex (fst kv) = None) kvs"

text \<open>
  \<^verbatim>\<open>String(i) === key\<close> for an index \<open>i\<close> below \<open>n\<close>: the own index keys of an array
  or string of length \<open>n\<close>.
\<close>

definition arrayIndex :: "string \<Rightarrow> nat \<Rightarrow> nat option" where
  "arrayIndex k n = find (\<lambda>i. showNat i = k) [0..<n]"

text \<open>
  \<^verbatim>\<open>key in sourceObject\<close>, on the own properties of the operand (a key of
  \<open>objectPrototypeKeys\<close> is found in every object as well). The operator throws a
  TypeError when its right operand is not an object.
\<close>

definition hasProperty :: "json \<Rightarrow> string \<Rightarrow> error + bool" where
  "hasProperty src k =
     (case src of
        JObj kvs \<Rightarrow> Inr (k \<in> set (map fst kvs))
      | JArr xs \<Rightarrow> Inr (k = ''length'' \<or> arrayIndex k (length xs) \<noteq> None)
      | _ \<Rightarrow> Inl TypeError)"

text \<open>
  \<^verbatim>\<open>item[key]\<close> on own properties, with \<open>None\<close> for \<^verbatim>\<open>undefined\<close> (for a key of
  \<open>objectPrototypeKeys\<close> the lookup gives the inherited member instead). Reading a
  property of null throws a TypeError; numbers and booleans have no own properties; strings
  have their length and their characters.
\<close>

definition getProperty :: "json \<Rightarrow> string \<Rightarrow> error + json option" where
  "getProperty src k =
     (case src of
        JNull \<Rightarrow> Inl TypeError
      | JObj kvs \<Rightarrow> Inr (map_of kvs k)
      | JArr xs \<Rightarrow>
          Inr (if k = ''length'' then Some (JNum (int (length xs)))
               else map_option (\<lambda>i. xs ! i) (arrayIndex k (length xs)))
      | JStr s \<Rightarrow>
          Inr (if k = ''length'' then Some (JNum (int (length s)))
               else map_option (\<lambda>i. JStr [s ! i]) (arrayIndex k (length s)))
      | _ \<Rightarrow> Inr None)"

text \<open>\<^verbatim>\<open>value && typeof value === "object"\<close>: a non-null object or array.\<close>

definition isObjectLike :: "json \<Rightarrow> bool" where
  "isObjectLike v = (case v of JArr xs \<Rightarrow> True | JObj kvs \<Rightarrow> True | _ \<Rightarrow> False)"

text \<open>\<^verbatim>\<open>typeof value === "object"\<close>, which also holds of null.\<close>

definition typeofObject :: "json \<Rightarrow> bool" where
  "typeofObject v = (v = JNull \<or> isObjectLike v)"

section \<open>Column ordering\<close>

text \<open>
  \<^verbatim>\<open>Array.prototype.sort\<close> with a comparator is a stable sort; it is modelled by stable
  insertion. \<^verbatim>\<open>String.prototype.localeCompare\<close> is the host's collation and is a
  parameter \<open>lc\<close> of every function that sorts column names.
\<close>

definition priorityColumns :: "string list" where
  "priorityColumns = [''id'', ''name'', ''type'', ''key'']"

fun indexOf :: "string list \<Rightarrow> string \<Rightarrow> int" where
  "indexOf [] a = - 1"
| "indexOf (x # xs) a =
     (if x = a then 0 else (let i = indexOf xs a in if i = - 1 then - 1 else i + 1))"

definition compareColumns :: "(string \<Rightarrow> string \<Rightarrow> int) \<Rightarrow> string \<Rightarrow> string \<Rightarrow> int" where
  "compareColumns lc a b =
     (let indexA = indexOf priorityColumns a; indexB = indexOf priorityColumns b in
      if indexA \<noteq> - 1 \<and> indexB \<noteq> - 1 then indexA - indexB
      else if indexA \<noteq> - 1 then - 1
      else if indexB \<noteq> - 1 then 1
      else lc a b)"

fun insertSorted :: "('a \<Rightarrow> 'a \<Rightarrow> int) \<Rightarrow> 'a \<Rightarrow> 'a list \<Rightarrow> 'a list" where
  "insertSorted cmp x [] = [x]"
| "insertSorted cmp x (y # ys) =
     (if cmp x y \<le> 0 then x # y # ys else y # insertSorted cmp x ys)"

definition arraySort :: "('a \<Rightarrow> 'a \<Rightarrow> int) \<Rightarrow> 'a list \<Rightarrow> 'a list" where
  "arraySort cmp xs = foldr (insertSorted cmp) xs []"

definition sortColumnNames :: "(string \<Rightarrow> string \<Rightarrow> int) \<Rightarrow> string list \<Rightarrow> string list" where
  "sortColumnNames lc cols = arraySort (compareColumns lc) cols"

text \<open>
  Lexicographic comparison of code units, the order of \<^verbatim>\<open>Array.prototype.sort\<close> without
  a comparator. It agrees with \<^verbatim>\<open>localeCompare\<close> on names of lower-case ASCII letters and
  digits, and concrete runs on such names use it.
\<close>

fun codeUnitCompare :: "string \<Rightarrow> string \<Rightarrow> int" where
  "codeUnitCompare [] [] = 0"
| "codeUnitCompare [] (y # ys) = - 1"
| "codeUnitCompare (x # xs) [] = 1"
| "codeUnitCompare (x # xs) (y # ys) =
     (if (of_char x :: nat) < of_char y then - 1
      else if (of_char y :: nat) < of_char x then 1
      else codeUnitCompare xs ys)"

text \<open>
  \<^verbatim>\<open>String.prototype.localeCompare\<close> as the host computes it under the root collation of
  the Unicode locale data (the collation of the English locales), for texts of ASCII
  letters, digits and underscores; other characters are outside this model. Texts are
  compared by their primary weights first: the underscore precedes the digits, the digits
  precede the letters, the two cases of a letter weigh the same, and a text precedes its
  extensions. Texts of equal primary weights are compared by case, at the first
  difference, lower case first.
\<close>

definition primaryWeight :: "char \<Rightarrow> nat" where
  "primaryWeight c =
     (let n = (of_char c :: nat) in
      if 97 \<le> n \<and> n \<le> 122 then n - 86
      else if 65 \<le> n \<and> n \<le> 90 then n - 54
      else if 48 \<le> n \<and> n \<le> 57 then n - 47
      else 0)"

definition caseWeight :: "char \<Rightarrow> nat" where
  "caseWeight c = (if 65 \<le> (of_char c :: nat) \<and> (of_char c :: nat) \<le> 90 then 1 else 0)"

fun compareWeights :: "nat list \<Rightarrow> nat list \<Rightarrow> int" where
  "compareWeights [] [] = 0"
| "compareWeights [] (y # ys) = - 1"
| "compareWeights (x # xs) [] = 1"
| "compareWeights (x # xs) (y # ys) =
     (if x < y then - 1 else if y < x then 1 else compareWeights xs ys)"

definition localeCompare :: "string \<Rightarrow> string \<Rightarrow> int" where
  "localeCompare a b =
     (let primary = compareWeights (map primaryWeight a) (map primaryWeight b) in
      if primary \<noteq> 0 then primary
      else compareWeights (map caseWeight a) (map caseWeight b))"

text \<open>\<^verbatim>\<open>Set.prototype.add\<close> on an insertion-ordered set.\<close>

definition setAdd :: "'a \<Rightarrow> 'a list \<Rightarrow> 'a list" where
  "setAdd x xs = (if x \<in> set xs then xs else xs @ [x])"

definition extractColumnNames :: "(string \<Rightarrow> string \<Rightarrow> int) \<Rightarrow> json list \<Rightarrow> string list" where
  "extractColumnNames lc array =
     sortColumnNames lc
       (foldl (\<lambda>columnSet item.
                 case item of JObj kvs \<Rightarrow> foldl (\<lambda>s k. setAdd k s) columnSet (map fst kvs)
                            | _ \<Rightarrow> columnSet)
              [] array)"

definition hasColumnsChanged :: "string list \<Rightarrow> string list \<Rightarrow> bool" where
  "hasColumnsChanged oldColumns newColumns =
     (length oldColumns \<noteq> length newColumns \<or>
      \<not> list_all (\<lambda>(column, index). column = oldColumns ! index)
           (zip newColumns [0..<length newColumns]))"

section \<open>Canonicalizer\<close>

text \<open>
  \<^verbatim>\<open>own ?? defaultValues[columnName] ?? null\<close>, where \<open>None\<close> is \<^verbatim>\<open>undefined\<close>: the
  nullish coalescing operator passes over both null and undefined. The defaults are
  looked up among the own properties of the configured object.
\<close>

definition orDefault :: "(string \<times> json) list \<Rightarrow> json option \<Rightarrow> string \<Rightarrow> json" where
  "orDefault dv own columnName =
     (case own of
        Some v \<Rightarrow>
          if v \<noteq> JNull then v
          else (case map_of dv columnName of Some d \<Rightarrow> d | None \<Rightarrow> JNull)
      | None \<Rightarrow> (case map_of dv columnName of Some d \<Rightarrow> d | None \<Rightarrow> JNull))"

text \<open>
  The normalized row is a fresh object, filled in column order and read by key only.
\<close>

fun applyDefaultsLoop ::
  "(string \<times> json) list \<Rightarrow> json \<Rightarrow> (string \<times> json) list \<Rightarrow> string list
     \<Rightarrow> error + (string \<times> json) list" where
  "applyDefaultsLoop dv sourceObject normalizedRow [] = Inr normalizedRow"
| "applyDefaultsLoop dv sourceObject normalizedRow (columnName # rest) =
     (case hasProperty sourceObject columnName of
        Inl e \<Rightarrow> Inl e
      | Inr present \<Rightarrow>
          if present then
            (case getProperty sourceObject columnName of
               Inl e \<Rightarrow> Inl e
             | Inr own \<Rightarrow>
                 applyDefaultsLoop dv sourceObject
                   (AList.update columnName (orDefault dv own columnName) normalizedRow) rest)
          else
            applyDefaultsLoop dv sourceObject
              (AList.update columnName (orDefault dv None columnName) normalizedRow) rest)"

definition applyDefaultsToRow ::
  "(string \<times> json) list \<Rightarrow> json \<Rightarrow> string list \<Rightarrow> error + (string \<times> json) list" where
  "applyDefaultsToRow dv sourceObject columnNames =
     applyDefaultsLoop dv sourceObject [] columnNames"

text \<open>
  The canonical representation is a fresh object, filled in column order;
  \<^verbatim>\<open>JSON.stringify\<close> writes its properties in own property order.
\<close>

definition generateCanonicalKey ::
  "(string \<times> json) list \<Rightarrow> (string \<times> json) list \<Rightarrow> string list \<Rightarrow> string" where
  "generateCanonicalKey dv sourceObject columnNames =
     stringify (JObj (ownPropertyOrder
       (foldl (\<lambda>canonicalRepresentation columnName.
                 let v = orDefault dv (map_of sourceObject columnName) columnName in
                 AList.update columnName (if isObjectLike v then JStr (stringify v) else v)
                   canonicalRepresentation)
              [] columnNames)))"

section \<open>Engine state\<close>

text \<open>
  The fields of the \<^verbatim>\<open>SCOLT\<close> class. A JavaScript \<^verbatim>\<open>Map\<close> is an association list in
  insertion order, and \<^verbatim>\<open>Map.prototype.set\<close> is \<open>AList.update\<close>. The dedup index of a
  table is a \<^verbatim>\<open>Map\<close> object that callers hold on to while \<^verbatim>\<open>objectToIndexMap\<close> may be
  given a new one, so these objects live in an explicit store \<open>mapObjects\<close> and
  \<open>objectToIndexMap\<close> holds their addresses.
\<close>

record TableData =
  columns :: "string list"
  rows :: "string list list"
  originalData :: "json list"

record SCOLT =
  tableRegistry :: "(string \<times> TableData) list"
  arrayReferenceCache :: "(string \<times> string) list"
  tableIndexCounters :: "(string \<times> nat) list"
  rootLevelKeys :: "string list"
  objectToIndexMap :: "(string \<times> nat) list"
  mapObjects :: "(string \<times> nat) list list"
  defaultValues :: "(string \<times> json) list"
  tableStructure :: "(string \<times> string) list"

text \<open>\<^verbatim>\<open>initialize\<close> followed by the two configuration assignments of \<^verbatim>\<open>parse\<close>.\<close>

definition initialize :: "(string \<times> json) list \<Rightarrow> (string \<times> string) list \<Rightarrow> SCOLT" where
  "initialize dv ts =
     \<lparr>tableRegistry = [], arrayReferenceCache = [], tableIndexCounters = [],
      rootLevelKeys = [], objectToIndexMap = [], mapObjects = [],
      defaultValues = dv, tableStructure = ts\<rparr>"

definition mapObject :: "SCOLT \<Rightarrow> nat \<Rightarrow> (string \<times> nat) list" where
  "mapObject st a = (if a < length (mapObjects st) then mapObjects st ! a else [])"

text \<open>
  \<^verbatim>\<open>this.tableStructure[context]\<close> is looked up among the own properties of the configured
  object; a mapping to the empty text is falsy and gives the default name.
\<close>

definition resolveTableName :: "SCOLT \<Rightarrow> string \<Rightarrow> string" where
  "resolveTableName st ctx =
     (case map_of (tableStructure st) ctx of
        Some customMapping \<Rightarrow>
          if customMapping \<noteq> [] then CHR ''@'' # customMapping else CHR ''@'' # ctx
      | None \<Rightarrow> CHR ''@'' # ctx)"

definition createNewTable :: "SCOLT \<Rightarrow> string \<Rightarrow> string list \<Rightarrow> SCOLT" where
  "createNewTable st tableName cols =
     st\<lparr>tableRegistry :=
          AList.update tableName \<lparr>columns = cols, rows = [], originalData = []\<rparr>
            (tableRegistry st),
        tableIndexCounters := AList.update tableName 0 (tableIndexCounters st),
        objectToIndexMap := AList.update tableName (length (mapObjects st)) (objectToIndexMap st),
        mapObjects := mapObjects st @ [[]]\<rparr>"

section \<open>Reference resolver\<close>

definition resolveReference :: "SCOLT \<Rightarrow> json \<Rightarrow> string \<Rightarrow> error + string" where
  "resolveReference st v ctx =
     (if \<not> isObjectLike v then serializePrimitive v
      else
        (case map_of (arrayReferenceCache st) (stringify v) of
           Some cached \<Rightarrow> Inr cached
         | None \<Rightarrow>
             let tableName = resolveTableName st ctx in
             (case map_of (tableRegistry st) tableName of
                None \<Rightarrow> Inr ''null''
              | Some table \<Rightarrow>
                  let lastRow = tableName @ ''['' @ showInt (int (length (rows table)) - 1) @ '']'' in
                  (case v of
                     JArr xs \<Rightarrow> Inr lastRow
                   | _ \<Rightarrow>
                       (case applyDefaultsToRow (defaultValues st) v (columns table) of
                          Inl e \<Rightarrow> Inl e
                        | Inr normalizedRow \<Rightarrow>
                            let canonicalKey =
                                  generateCanonicalKey (defaultValues st) normalizedRow (columns table)
                            in
                            (case map_of (objectToIndexMap st) tableName of
                               None \<Rightarrow> Inr lastRow
                             | Some canonicalKeyMap \<Rightarrow>
                                 (case map_of (mapObject st canonicalKeyMap) canonicalKey of
                                    Some rowIndex \<Rightarrow>
                                      Inr (tableName @ ''['' @ showNat rowIndex @ '']'')
                                  | None \<Rightarrow> Inr lastRow)))))))"

text \<open>
  One cell of a row: \<^verbatim>\<open>typeof value === "object" ? resolveReference(value, columnName)
  : serializePrimitive(value)\<close>, reading \<^verbatim>\<open>normalizedRow[columnName]\<close>.
\<close>

definition renderCell :: "SCOLT \<Rightarrow> (string \<times> json) list \<Rightarrow> string \<Rightarrow> error + string" where
  "renderCell st normalizedRow columnName =
     (case map_of normalizedRow columnName of
        None \<Rightarrow> Inr ''null''
      | Some v \<Rightarrow>
          if typeofObject v then resolveReference st v columnName
          else serializePrimitive v)"

fun renderRow :: "SCOLT \<Rightarrow> (string \<times> json) list \<Rightarrow> string list \<Rightarrow> error + string list" where
  "renderRow st normalizedRow [] = Inr []"
| "renderRow st normalizedRow (columnName # rest) =
     (case renderCell st normalizedRow columnName of
        Inl e \<Rightarrow> Inl e
      | Inr cell \<Rightarrow>
          (case renderRow st normalizedRow rest of
             Inl e \<Rightarrow> Inl e
           | Inr cells \<Rightarrow> Inr (cell # cells)))"

section \<open>Table registry and schema merger\<close>

definition addRowToTable ::
  "SCOLT \<Rightarrow> string \<Rightarrow> json \<Rightarrow> (string \<times> json) list \<Rightarrow> string list \<Rightarrow> string
     \<Rightarrow> error + (SCOLT \<times> nat)" where
  "addRowToTable st tableName originalItem normalizedRow cols canonicalKey =
     (case renderRow st normalizedRow cols of
        Inl e \<Rightarrow> Inl e
      | Inr row \<Rightarrow>
          (case map_of (tableRegistry st) tableName of
             None \<Rightarrow> Inl TypeError
           | Some table \<Rightarrow>
               (case map_of (objectToIndexMap st) tableName of
                  None \<Rightarrow> Inl TypeError
                | Some canonicalKeyMap \<Rightarrow>
                    let rowIndex = length (rows table) in
                    Inr (st\<lparr>tableRegistry :=
                               AList.update tableName
                                 (table\<lparr>rows := rows table @ [row],
                                        originalData := originalData table @ [originalItem]\<rparr>)
                                 (tableRegistry st),
                             mapObjects :=
                               (mapObjects st)[canonicalKeyMap :=
                                  AList.update canonicalKey rowIndex (mapObject st canonicalKeyMap)],
                             tableIndexCounters :=
                               AList.update tableName (rowIndex + 1) (tableIndexCounters st)\<rparr>,
                         rowIndex))))"

text \<open>
  The body of the \<^verbatim>\<open>originalData.map\<close> callback of \<^verbatim>\<open>rebuildTableWithNewColumns\<close>:
  the canonical key and the rendered row of one stored source record. It runs in the state
  where \<^verbatim>\<open>table.columns\<close> is already the new list, while the rows and the dedup index
  of the table are still the old ones.
\<close>

definition rebuildRow :: "SCOLT \<Rightarrow> string list \<Rightarrow> json \<Rightarrow> error + (string \<times> string list)" where
  "rebuildRow st newColumns item =
     (case applyDefaultsToRow (defaultValues st) item newColumns of
        Inl e \<Rightarrow> Inl e
      | Inr normalizedRow \<Rightarrow>
          (case renderRow st normalizedRow newColumns of
             Inl e \<Rightarrow> Inl e
           | Inr row \<Rightarrow>
               Inr (generateCanonicalKey (defaultValues st) normalizedRow newColumns, row)))"

fun rebuildRows ::
  "SCOLT \<Rightarrow> string list \<Rightarrow> json list \<Rightarrow> nat \<Rightarrow> (string \<times> nat) list
     \<Rightarrow> error + (string list list \<times> (string \<times> nat) list)" where
  "rebuildRows st newColumns [] index newCanonicalKeyMap = Inr ([], newCanonicalKeyMap)"
| "rebuildRows st newColumns (item # items) index newCanonicalKeyMap =
     (case rebuildRow st newColumns item of
        Inl e \<Rightarrow> Inl e
      | Inr (canonicalKey, row) \<Rightarrow>
          (case rebuildRows st newColumns items (index + 1)
                  (AList.update canonicalKey index newCanonicalKeyMap) of
             Inl e \<Rightarrow> Inl e
           | Inr (newRows, finalMap) \<Rightarrow> Inr (row # newRows, finalMap)))"

definition rebuildTableWithNewColumns :: "SCOLT \<Rightarrow> string \<Rightarrow> string list \<Rightarrow> error + SCOLT" where
  "rebuildTableWithNewColumns st tableName newColumns =
     (case map_of (tableRegistry st) tableName of
        None \<Rightarrow> Inl TypeError
      | Some table \<Rightarrow>
          let st1 = st\<lparr>tableRegistry :=
                        AList.update tableName (table\<lparr>columns := newColumns\<rparr>) (tableRegistry st)\<rparr>
          in
          (case rebuildRows st1 newColumns (originalData table) 0 [] of
             Inl e \<Rightarrow> Inl e
           | Inr (newRows, newCanonicalKeyMap) \<Rightarrow>
               Inr (st1\<lparr>tableRegistry :=
                          AList.update tableName
                            (table\<lparr>columns := newColumns, rows := newRows\<rparr>)
                            (tableRegistry st1),
                        objectToIndexMap :=
                          AList.update tableName (length (mapObjects st1)) (objectToIndexMap st1),
                        mapObjects := mapObjects st1 @ [newCanonicalKeyMap]\<rparr>)))"

definition mergedColumnNames :: "string list \<Rightarrow> string list \<Rightarrow> string list" where
  "mergedColumnNames existing newColumns =
     existing @ filter (\<lambda>column. column \<notin> set existing) newColumns"

definition mergeTableColumns ::
  "(string \<Rightarrow> string \<Rightarrow> int) \<Rightarrow> SCOLT \<Rightarrow> string \<Rightarrow> string list \<Rightarrow> error + SCOLT" where
  "mergeTableColumns lc st tableName newColumns =
     (case map_of (tableRegistry st) tableName of
        None \<Rightarrow> Inl TypeError
      | Some table \<Rightarrow>
          let sortedColumns = sortColumnNames lc (mergedColumnNames (columns table) newColumns) in
          if hasColumnsChanged (columns table) sortedColumns
          then rebuildTableWithNewColumns st tableName sortedColumns
          else Inr st)"

section \<open>Bracket literals\<close>

text \<open>
  The text that \<^verbatim>\<open>processArrayValue\<close> caches for an array whose first element is not a
  record: an element that is an array becomes the bracket literal of the primitive
  serialization of its elements, every other element its primitive serialization.
\<close>

definition bracketLiteral :: "string list \<Rightarrow> string" where
  "bracketLiteral texts = ''['' @ join '','' texts @ '']''"

definition serializeNestedArray :: "json list \<Rightarrow> error + string" where
  "serializeNestedArray array =
     (case mapResult
             (\<lambda>item. case item of
                JArr sub \<Rightarrow>
                  (case mapResult serializePrimitive sub of
                     Inl e \<Rightarrow> Inl e
                   | Inr texts \<Rightarrow> Inr (bracketLiteral texts))
              | _ \<Rightarrow> serializePrimitive item) array of
        Inl e \<Rightarrow> Inl e
      | Inr texts \<Rightarrow> Inr (bracketLiteral texts))"

text \<open>
  The reference that \<^verbatim>\<open>processArrayValue\<close> caches for an array of records:
  \<^verbatim>\<open>`${tableName}[${rowIndices.join(",")}]`\<close>.
\<close>

definition rowsReference :: "string \<Rightarrow> nat list \<Rightarrow> string" where
  "rowsReference tableName rowIndices =
     tableName @ ''['' @ join '','' (map showNat rowIndices) @ '']''"

section \<open>Traversal\<close>

text \<open>
  \<^verbatim>\<open>processValue\<close>, \<^verbatim>\<open>processArrayValue\<close> and \<^verbatim>\<open>processObjectValue\<close>, with the two
  \<^verbatim>\<open>forEach\<close> loops as \<open>processArrayItems\<close> (over the elements) and \<open>processNestedValues\<close>
  (over the columns). The loops keep the column list and the address of the dedup index
  that were read before the loop started, as the locals \<^verbatim>\<open>columns\<close> and
  \<^verbatim>\<open>canonicalKeyMap\<close> of the source do. The recursion descends into property values only,
  so it terminates by the size of the value.
\<close>


lemma size_map_of_less:
  "map_of kvs k = Some v \<Longrightarrow> size v < Suc (size_list (size_prod (\<lambda>_. 0) size) kvs)"
  by (induction kvs) (auto split: if_splits)

lemma size_nth_less:
  "i < length xs \<Longrightarrow> size (xs ! i) < Suc (size_list size xs)"
  using size_list_estimation'[of "xs ! i" xs "size (xs ! i)" size] by simp

lemma arrayIndex_less: "arrayIndex k n = Some i \<Longrightarrow> i < n"
  by (auto simp: arrayIndex_def dest: find_Some_iff[THEN iffD1])

lemma getProperty_size:
  "getProperty item k = Inr (Some nv) \<Longrightarrow> isObjectLike nv \<Longrightarrow> size nv < size item"
  by (cases item)
     (auto simp: getProperty_def isObjectLike_def size_map_of_less size_nth_less
           dest: arrayIndex_less split: if_splits)

function
  processValue :: "(string \<Rightarrow> string \<Rightarrow> int) \<Rightarrow> SCOLT \<Rightarrow> json \<Rightarrow> string \<Rightarrow> error + SCOLT"
and processArrayValue ::
  "(string \<Rightarrow> string \<Rightarrow> int) \<Rightarrow> SCOLT \<Rightarrow> json list \<Rightarrow> string \<Rightarrow> string \<Rightarrow> error + SCOLT"
and processArrayItems ::
  "(string \<Rightarrow> string \<Rightarrow> int) \<Rightarrow> SCOLT \<Rightarrow> string \<Rightarrow> string list \<Rightarrow> nat \<Rightarrow> json list \<Rightarrow> nat list
     \<Rightarrow> error + (SCOLT \<times> nat list)"
and processNestedValues ::
  "(string \<Rightarrow> string \<Rightarrow> int) \<Rightarrow> SCOLT \<Rightarrow> json \<Rightarrow> string list \<Rightarrow> error + SCOLT"
and processObjectValue ::
  "(string \<Rightarrow> string \<Rightarrow> int) \<Rightarrow> SCOLT \<Rightarrow> (string \<times> json) list \<Rightarrow> string \<Rightarrow> error + SCOLT"
where
  "processValue lc st v ctx =
     (if \<not> isObjectLike v then Inr st
      else
        let cacheKey = stringify v in
        if map_of (arrayReferenceCache st) cacheKey \<noteq> None then Inr st
        else
          (case v of
             JArr array \<Rightarrow> processArrayValue lc st array ctx cacheKey
           | JObj object \<Rightarrow> processObjectValue lc st object ctx
           | _ \<Rightarrow> Inr st))"
| "processArrayValue lc st array ctx cacheKey =
     (case array of
        [] \<Rightarrow> Inr (st\<lparr>arrayReferenceCache := AList.update cacheKey ''[]'' (arrayReferenceCache st)\<rparr>)
      | firstElement # others \<Rightarrow>
          if \<not> (case firstElement of JObj kvs \<Rightarrow> True | _ \<Rightarrow> False) then
            (case serializeNestedArray array of
               Inl e \<Rightarrow> Inl e
             | Inr serializedArray \<Rightarrow>
                 Inr (st\<lparr>arrayReferenceCache :=
                           AList.update cacheKey serializedArray (arrayReferenceCache st)\<rparr>))
          else
            let tableName = resolveTableName st ctx;
                extractedColumns = extractColumnNames lc array
            in
            if extractedColumns = [] then
              (case mapResult serializePrimitive array of
                 Inl e \<Rightarrow> Inl e
               | Inr primitiveArray \<Rightarrow>
                   Inr (st\<lparr>arrayReferenceCache :=
                             AList.update cacheKey (bracketLiteral primitiveArray)
                               (arrayReferenceCache st)\<rparr>))
            else
              (case (if map_of (tableRegistry st) tableName = None
                     then Inr (createNewTable st tableName extractedColumns)
                     else mergeTableColumns lc st tableName extractedColumns) of
                 Inl e \<Rightarrow> Inl e
               | Inr st1 \<Rightarrow>
                   (case map_of (tableRegistry st1) tableName of
                      None \<Rightarrow> Inl TypeError
                    | Some table \<Rightarrow>
                        (case map_of (objectToIndexMap st1) tableName of
                           None \<Rightarrow> Inl TypeError
                         | Some canonicalKeyMap \<Rightarrow>
                             (case processArrayItems lc st1 tableName (columns table)
                                     canonicalKeyMap array [] of
                                Inl e \<Rightarrow> Inl e
                              | Inr (st2, rowIndices) \<Rightarrow>
                                  Inr (st2\<lparr>arrayReferenceCache :=
                                             AList.update cacheKey
                                               (rowsReference tableName rowIndices)
                                               (arrayReferenceCache st2)\<rparr>))))))"
| "processArrayItems lc st tableName cols canonicalKeyMap [] rowIndices = Inr (st, rowIndices)"
| "processArrayItems lc st tableName cols canonicalKeyMap (item # items) rowIndices =
     (case processNestedValues lc st item cols of
        Inl e \<Rightarrow> Inl e
      | Inr st1 \<Rightarrow>
          (case applyDefaultsToRow (defaultValues st1) item cols of
             Inl e \<Rightarrow> Inl e
           | Inr normalizedRow \<Rightarrow>
               let canonicalKey = generateCanonicalKey (defaultValues st1) normalizedRow cols in
               (case map_of (mapObject st1 canonicalKeyMap) canonicalKey of
                  Some rowIndex \<Rightarrow>
                    processArrayItems lc st1 tableName cols canonicalKeyMap items
                      (rowIndices @ [rowIndex])
                | None \<Rightarrow>
                    (case addRowToTable st1 tableName item normalizedRow cols canonicalKey of
                       Inl e \<Rightarrow> Inl e
                     | Inr (st2, rowIndex) \<Rightarrow>
                         processArrayItems lc st2 tableName cols canonicalKeyMap items
                           (rowIndices @ [rowIndex])))))"
| "processNestedValues lc st item [] = Inr st"
| "processNestedValues lc st item (columnName # rest) =
     (case getProperty item columnName of
        Inl e \<Rightarrow> Inl e
      | Inr None \<Rightarrow> processNestedValues lc st item rest
      | Inr (Some nestedValue) \<Rightarrow>
          if isObjectLike nestedValue then
            (case processValue lc st nestedValue columnName of
               Inl e \<Rightarrow> Inl e
             | Inr st1 \<Rightarrow> processNestedValues lc st1 item rest)
          else processNestedValues lc st item rest)"
| "processObjectValue lc st object ctx =
     (let tableName = resolveTableName st ctx;
          extractedColumns = sortColumnNames lc (map fst object)
      in
      (case (if map_of (tableRegistry st) tableName = None
             then Inr (createNewTable st tableName extractedColumns)
             else mergeTableColumns lc st tableName extractedColumns) of
         Inl e \<Rightarrow> Inl e
       | Inr st1 \<Rightarrow>
           (case map_of (tableRegistry st1) tableName of
              None \<Rightarrow> Inl TypeError
            | Some table \<Rightarrow>
                (case map_of (objectToIndexMap st1) tableName of
                   None \<Rightarrow> Inl TypeError
                 | Some canonicalKeyMap \<Rightarrow>
                     (case processNestedValues lc st1 (JObj object) (columns table) of
                        Inl e \<Rightarrow> Inl e
                      | Inr st2 \<Rightarrow>
                          (case applyDefaultsToRow (defaultValues st2) (JObj object) (columns table) of
                             Inl e \<Rightarrow> Inl e
                           | Inr normalizedRow \<Rightarrow>
                               let canonicalKey =
                                     generateCanonicalKey (defaultValues st2) normalizedRow (columns table)
                               in
                               if map_of (mapObject st2 canonicalKeyMap) canonicalKey = None then
                                 (case addRowToTable st2 tableName (JObj object) normalizedRow
                                         (columns table) canonicalKey of
                                    Inl e \<Rightarrow> Inl e
                                  | Inr (st3, rowIndex) \<Rightarrow> Inr st3)
                               else Inr st2))))))"
  by pat_completeness auto
termination
  apply (relation "inv_image (less_than <*lex*> less_than <*lex*> less_than)
     (\<lambda>x. case x of
        Inl (Inl (lc, st, v, ctx)) \<Rightarrow> (size v, 3::nat, 0::nat)
      | Inl (Inr (lc, st, array, ctx, cacheKey)) \<Rightarrow> (size (JArr array), 2, 0)
      | Inr (Inl (lc, st, tableName, cols, canonicalKeyMap, items, rowIndices)) \<Rightarrow>
          (size (JArr items), 1, 0)
      | Inr (Inr (Inl (lc, st, item, cols))) \<Rightarrow> (size item, 0, length cols)
      | Inr (Inr (Inr (lc, st, object, ctx))) \<Rightarrow> (size (JObj object), 2, 0))")
  apply (auto simp: getProperty_size)
  done

declare processValue.simps [simp del]
declare processArrayValue.simps [simp del]
declare processObjectValue.simps [simp del]

section \<open>Reference compaction\<close>

text \<open>
  The pattern \<^verbatim>\<open>/^(@\w+)\[([\d,]+)\]$/\<close>: the result is the table name and the text
  between the brackets.
\<close>

definition matchRowsReference :: "string \<Rightarrow> (string \<times> string) option" where
  "matchRowsReference reference =
     (case reference of
        [] \<Rightarrow> None
      | c # rest \<Rightarrow>
          if c \<noteq> CHR ''@'' then None
          else
            let name = takeWhile isWordChar rest; tail = dropWhile isWordChar rest in
            if name = [] then None
            else
              (case tail of
                 [] \<Rightarrow> None
               | b # body \<Rightarrow>
                   if b = CHR ''['' \<and> body \<noteq> [] \<and> last body = CHR '']'' \<and> butlast body \<noteq> [] \<and>
                      list_all (\<lambda>d. isDigit d \<or> d = CHR '','') (butlast body)
                   then Some (c # name, butlast body)
                   else None))"

text \<open>\<^verbatim>\<open>String.prototype.split\<close> on a one-character separator.\<close>

fun splitOn :: "char \<Rightarrow> string \<Rightarrow> string list" where
  "splitOn sep [] = [[]]"
| "splitOn sep (c # cs) =
     (if c = sep then [] # splitOn sep cs
      else (case splitOn sep cs of p # ps \<Rightarrow> (c # p) # ps | [] \<Rightarrow> [[c]]))"

text \<open>\<^verbatim>\<open>Number(text)\<close> on a text of decimal digits; the empty text is 0.\<close>

definition jsNumber :: "string \<Rightarrow> nat" where
  "jsNumber s = foldl (\<lambda>n c. 10 * n + (of_char c - 48)) 0 s"

definition isSequentialFullTableReference :: "nat list \<Rightarrow> nat \<Rightarrow> bool" where
  "isSequentialFullTableReference indices totalRows =
     (length indices = totalRows \<and>
      list_all (\<lambda>(v, index). v = index) (zip indices [0..<length indices]))"

definition compactReference :: "(string \<times> TableData) list \<Rightarrow> string \<Rightarrow> string" where
  "compactReference registry reference =
     (case matchRowsReference reference of
        None \<Rightarrow> reference
      | Some (tableName, indexText) \<Rightarrow>
          let indices =
                arraySort (\<lambda>a b. int a - int b) (map jsNumber (splitOn CHR '','' indexText))
          in
          (case map_of registry tableName of
             None \<Rightarrow> reference
           | Some table \<Rightarrow>
               if isSequentialFullTableReference indices (length (rows table)) then tableName
               else reference))"

definition compactArrayReferences :: "SCOLT \<Rightarrow> SCOLT" where
  "compactArrayReferences st =
     st\<lparr>arrayReferenceCache :=
          map (\<lambda>(cacheKey, reference). (cacheKey, compactReference (tableRegistry st) reference))
            (arrayReferenceCache st)\<rparr>"

definition startsWithAt :: "string \<Rightarrow> bool" where
  "startsWithAt cell = (case cell of [] \<Rightarrow> False | c # rest \<Rightarrow> c = CHR ''@'')"

definition optimizeCell :: "(string \<times> TableData) list \<Rightarrow> string \<Rightarrow> string" where
  "optimizeCell registry cell =
     (if \<not> startsWithAt cell then cell else compactReference registry cell)"

text \<open>
  The loop of \<^verbatim>\<open>optimizeTableReferences\<close> replaces \<^verbatim>\<open>table.rows\<close> table by table. All it
  reads of another table is the number of its rows, which the pass does not change, so
  every cell is rewritten against the registry as it stands when the pass starts.
\<close>

definition optimizeTableReferences :: "SCOLT \<Rightarrow> SCOLT" where
  "optimizeTableReferences st =
     st\<lparr>tableRegistry :=
          map (\<lambda>(tableName, table).
                 (tableName, table\<lparr>rows := map (map (optimizeCell (tableRegistry st))) (rows table)\<rparr>))
            (tableRegistry st)\<rparr>"

section \<open>Dependency orderer\<close>

definition tableDependencies :: "string \<Rightarrow> TableData \<Rightarrow> string list" where
  "tableDependencies tableName table =
     foldl (\<lambda>dependencies cell.
              if startsWithAt cell then
                (let referencedTable = takeWhile (\<lambda>c. c \<noteq> CHR ''['' \<and> c \<noteq> CHR ''{'') cell in
                 if referencedTable \<noteq> tableName then setAdd referencedTable dependencies
                 else dependencies)
              else dependencies)
           [] (concat (rows table))"

definition buildDependencyGraph :: "SCOLT \<Rightarrow> (string \<times> string list) list" where
  "buildDependencyGraph st =
     map (\<lambda>(tableName, table). (tableName, tableDependencies tableName table)) (tableRegistry st)"

text \<open>
  The closure \<^verbatim>\<open>visitNode\<close> of \<^verbatim>\<open>computeTopologicalOrder\<close> with its three captured
  variables as a record. The first argument bounds the depth of the call stack: a call
  that would exceed it returns \<open>None\<close>.
\<close>

record visitState =
  sortedOrder :: "string list"
  visitedNodes :: "string list"
  visitingNodes :: "string list"

fun visitNode ::
  "nat \<Rightarrow> (string \<times> string list) list \<Rightarrow> string \<Rightarrow> visitState \<Rightarrow> visitState option"
and visitDependencies ::
  "nat \<Rightarrow> (string \<times> string list) list \<Rightarrow> string list \<Rightarrow> visitState \<Rightarrow> visitState option"
where
  "visitNode 0 dependencyGraph node s = None"
| "visitNode (Suc depth) dependencyGraph node s =
     (if node \<in> set (visitedNodes s) then Some s
      else if node \<in> set (visitingNodes s) then Some s
      else
        (case visitDependencies depth dependencyGraph
                (case map_of dependencyGraph node of Some dependencies \<Rightarrow> dependencies | None \<Rightarrow> [])
                (s\<lparr>visitingNodes := setAdd node (visitingNodes s)\<rparr>) of
           None \<Rightarrow> None
         | Some s1 \<Rightarrow>
             Some (s1\<lparr>visitingNodes := removeAll node (visitingNodes s1),
                       visitedNodes := setAdd node (visitedNodes s1),
                       sortedOrder := sortedOrder s1 @ [node]\<rparr>)))"
| "visitDependencies depth dependencyGraph [] s = Some s"
| "visitDependencies depth dependencyGraph (dependency # rest) s =
     (if map_of dependencyGraph dependency \<noteq> None then
        (case visitNode depth dependencyGraph dependency s of
           None \<Rightarrow> None
         | Some s1 \<Rightarrow> visitDependencies depth dependencyGraph rest s1)
      else visitDependencies depth dependencyGraph rest s)"

fun visitTables ::
  "nat \<Rightarrow> (string \<times> string list) list \<Rightarrow> string list \<Rightarrow> visitState \<Rightarrow> visitState option" where
  "visitTables depth dependencyGraph [] s = Some s"
| "visitTables depth dependencyGraph (tableName # rest) s =
     (case visitNode depth dependencyGraph tableName s of
        None \<Rightarrow> None
      | Some s1 \<Rightarrow> visitTables depth dependencyGraph rest s1)"

definition topologicalOrder :: "nat \<Rightarrow> (string \<times> string list) list \<Rightarrow> string list option" where
  "topologicalOrder depth dependencyGraph =
     map_option sortedOrder
       (visitTables depth dependencyGraph (map fst dependencyGraph)
          \<lparr>sortedOrder = [], visitedNodes = [], visitingNodes = []\<rparr>)"

definition computeTopologicalOrder :: "nat \<Rightarrow> SCOLT \<Rightarrow> string list option" where
  "computeTopologicalOrder depth st = topologicalOrder depth (buildDependencyGraph st)"

section \<open>Output formatter\<close>

definition formatRows :: "string \<Rightarrow> TableData \<Rightarrow> string" where
  "formatRows header table =
     (case rows table of
        [row] \<Rightarrow> header @ '' '' @ join '','' row
      | _ \<Rightarrow> header @ [CHR 0x0A] @ join [CHR 0x0A] (map (\<lambda>row. ''  '' @ join '','' row) (rows table)))"

definition formatTableOutput :: "string \<Rightarrow> TableData \<Rightarrow> string" where
  "formatTableOutput tableName table =
     formatRows (tableName @ ''{'' @ join '','' (columns table) @ ''}:'') table"

definition formatRootTable :: "string \<Rightarrow> TableData \<Rightarrow> string" where
  "formatRootTable k table =
     formatRows (''#'' @ k @ ''{'' @ join '','' (columns table) @ ''}:'') table"

text \<open>
  The pattern \<^verbatim>\<open>/^(@\w+)(\[.*)?$/\<close>: the result is the table name. The dot matches no
  line terminator.
\<close>

definition matchTableReference :: "string \<Rightarrow> string option" where
  "matchTableReference reference =
     (case reference of
        [] \<Rightarrow> None
      | c # rest \<Rightarrow>
          if c \<noteq> CHR ''@'' then None
          else
            let name = takeWhile isWordChar rest; tail = dropWhile isWordChar rest in
            if name = [] then None
            else
              (case tail of
                 [] \<Rightarrow> Some (c # name)
               | b # body \<Rightarrow>
                   if b = CHR ''['' \<and> list_all (\<lambda>d. d \<noteq> CHR 0x0A \<and> d \<noteq> CHR 0x0D) body
                   then Some (c # name)
                   else None))"

definition rootLine :: "SCOLT \<Rightarrow> string \<Rightarrow> json \<Rightarrow> error + string" where
  "rootLine st k v =
     (case resolveReference st v k of
        Inl e \<Rightarrow> Inl e
      | Inr reference \<Rightarrow>
          let plain = ''#'' @ k @ '': '' @ reference in
          (case matchTableReference reference of
             None \<Rightarrow> Inr plain
           | Some tableName \<Rightarrow>
               if tableName = resolveTableName st k then
                 (case map_of (tableRegistry st) tableName of
                    Some table \<Rightarrow> Inr (formatRootTable k table)
                  | None \<Rightarrow> Inr plain)
               else Inr plain))"

fun rootLines :: "SCOLT \<Rightarrow> (string \<times> json) list \<Rightarrow> error + string list" where
  "rootLines st [] = Inr []"
| "rootLines st ((k, v) # rest) =
     (case rootLine st k v of
        Inl e \<Rightarrow> Inl e
      | Inr line \<Rightarrow>
          (case rootLines st rest of
             Inl e \<Rightarrow> Inl e
           | Inr ls \<Rightarrow> Inr (line # ls)))"

definition buildRootOutput :: "SCOLT \<Rightarrow> json \<Rightarrow> error + string list" where
  "buildRootOutput st rootData =
     (case rootData of
        JArr xs \<Rightarrow>
          (case resolveReference st rootData ''root'' of
             Inl e \<Rightarrow> Inl e
           | Inr reference \<Rightarrow> Inr [reference])
      | JObj kvs \<Rightarrow> rootLines st kvs
      | _ \<Rightarrow>
          (case jsString rootData of
             Inl e \<Rightarrow> Inl e
           | Inr text \<Rightarrow> Inr [text]))"

definition tableLines :: "SCOLT \<Rightarrow> string list \<Rightarrow> string list" where
  "tableLines st dependencyOrder =
     concat (map (\<lambda>tableName.
        if tableName = ''@root'' then []
        else if tl tableName \<in> set (rootLevelKeys st) then []
        else
          (case map_of (tableRegistry st) tableName of
             None \<Rightarrow> []
           | Some table \<Rightarrow> if rows table = [] then [] else [formatTableOutput tableName table]))
        dependencyOrder)"

text \<open>
  The sort runs with a call stack of one frame more than there are tables, which is
  enough for every graph (\<open>topologicalOrder_returns\<close> below).
\<close>

definition buildTabularOutput :: "SCOLT \<Rightarrow> json \<Rightarrow> error + string" where
  "buildTabularOutput st rootData =
     (case computeTopologicalOrder (Suc (length (tableRegistry st))) st of
        None \<Rightarrow> Inl RangeError
      | Some dependencyOrder \<Rightarrow>
          (case buildRootOutput st rootData of
             Inl e \<Rightarrow> Inl e
           | Inr rootLs \<Rightarrow>
               let tablesSection = join [CHR 0x0A, CHR 0x0A] (tableLines st dependencyOrder);
                   rootSection = join [CHR 0x0A] rootLs
               in
               Inr (if tablesSection \<noteq> [] then
                      (if rootSection \<noteq> [] then tablesSection @ [CHR 0x0A, CHR 0x0A] @ rootSection
                       else tablesSection)
                    else rootSection)))"

section \<open>The encoder\<close>

text \<open>
  \<^verbatim>\<open>parse\<close> on an already parsed document, with the two configuration options
  \<^verbatim>\<open>defaultValues\<close> and \<^verbatim>\<open>tableStructure\<close>.
\<close>

definition parse ::
  "(string \<Rightarrow> string \<Rightarrow> int) \<Rightarrow> json \<Rightarrow> (string \<times> json) list \<Rightarrow> (string \<times> string) list
     \<Rightarrow> error + string" where
  "parse lc parsedData dv ts =
     (let st0 = (initialize dv ts)
                  \<lparr>rootLevelKeys :=
                     (case parsedData of
                        JObj kvs \<Rightarrow> foldl (\<lambda>s k. setAdd k s) [] (map fst kvs)
                      | _ \<Rightarrow> [])\<rparr>
      in
      (case processValue lc st0 parsedData ''root'' of
         Inl e \<Rightarrow> Inl e
       | Inr st1 \<Rightarrow>
           buildTabularOutput (optimizeTableReferences (compactArrayReferences st1)) parsedData))"

section \<open>Auxiliary definitions for the statements\<close>



text \<open>
  The rendering that claim C5 describes, following its words: every scalar at any depth goes
  through primitive serialization, and a sub-list is flattened recursively into the texts
  of the scalars it holds.
\<close>

fun flattenedTexts :: "json \<Rightarrow> string list" where
  "flattenedTexts (JArr xs) = concat (map flattenedTexts xs)"
| "flattenedTexts v = (case serializePrimitive v of Inr text \<Rightarrow> [text] | Inl e \<Rightarrow> [])"

definition specElementText :: "json \<Rightarrow> string" where
  "specElementText v = (case v of JArr sub \<Rightarrow> bracketLiteral (flattenedTexts v) | _ \<Rightarrow> concat (flattenedTexts v))"

definition specBracketLiteral :: "json list \<Rightarrow> string" where
  "specBracketLiteral array = bracketLiteral (map specElementText array)"


definition isRecord :: "json \<Rightarrow> bool" where
  "isRecord v = (case v of JObj kvs \<Rightarrow> True | _ \<Rightarrow> False)"

text \<open>\<^verbatim>\<open>priorityColumns.indexOf(c) !== -1\<close>.\<close>

definition isPriority :: "string \<Rightarrow> bool" where
  "isPriority c = (c \<in> set priorityColumns)"

text \<open>Concrete inputs and states for the statements on reference compaction.\<close>

definition reorderedInput :: json where
  "reorderedInput =
     JObj [(''a'', JObj [(''users'', JArr [JObj [(''id'', JNum 1)], JObj [(''id'', JNum 2)]])]),
           (''b'', JObj [(''users'', JArr [JObj [(''id'', JNum 2)], JObj [(''id'', JNum 1)]])])]"

definition twoUsers :: SCOLT where
  "twoUsers =
     (initialize [] [])
       \<lparr>tableRegistry :=
          [(''@users'', \<lparr>columns = [''id''], rows = [[''1''], [''2'']],
                        originalData = [JObj [(''id'', JNum 1)], JObj [(''id'', JNum 2)]]\<rparr>),
           (''@b'', \<lparr>columns = [''users''], rows = [[''@users[1,0]'']],
                    originalData = [JObj [(''users'', JArr [JObj [(''id'', JNum 2)], JObj [(''id'', JNum 1)]])]]\<rparr>)],
        arrayReferenceCache := [(''[{\"id\":2},{\"id\":1}]'', ''@users[1,0]'')]\<rparr>"

text \<open>
  The tables of a dependency graph, the tables the sort has not entered yet, the edges of
  the graph (to tables of the graph), the position of a table in an emitted order, and the
  invariant of the sort.
\<close>

definition graphKeys :: "(string \<times> string list) list \<Rightarrow> string set" where
  "graphKeys g = set (map fst g)"

definition unvisited :: "(string \<times> string list) list \<Rightarrow> visitState \<Rightarrow> string set" where
  "unvisited g s = graphKeys g - set (visitingNodes s) - set (visitedNodes s)"

definition dependencyEdges :: "(string \<times> string list) list \<Rightarrow> (string \<times> string) set" where
  "dependencyEdges g =
     {(n, d). \<exists>deps. map_of g n = Some deps \<and> d \<in> set deps \<and> d \<in> graphKeys g}"

definition positionOf :: "string \<Rightarrow> string list \<Rightarrow> nat" where
  "positionOf x xs = length (takeWhile (\<lambda>y. y \<noteq> x) xs)"

definition ordered :: "(string \<times> string list) list \<Rightarrow> visitState \<Rightarrow> bool" where
  "ordered g s =
     (set (sortedOrder s) = set (visitedNodes s) \<and>
      distinct (sortedOrder s) \<and>
      set (visitedNodes s) \<inter> set (visitingNodes s) = {} \<and>
      set (visitedNodes s) \<subseteq> graphKeys g \<and>
      (\<forall>n d. n \<in> set (visitedNodes s) \<longrightarrow> (n, d) \<in> dependencyEdges g \<longrightarrow>
             d \<in> set (takeWhile (\<lambda>y. y \<noteq> n) (sortedOrder s))))"

definition linkedTables :: SCOLT where
  "linkedTables =
     (initialize [] [])
       \<lparr>tableRegistry :=
          [(''@team'', \<lparr>columns = [''lead''], rows = [[''@lead'']],
                       originalData = [JObj [(''lead'', JObj [(''id'', JNum 1)])]]\<rparr>),
           (''@lead'', \<lparr>columns = [''id''], rows = [[''1'']],
                       originalData = [JObj [(''id'', JNum 1)]]\<rparr>)]\<rparr>"

definition cyclicGraph :: "(string \<times> string list) list" where
  "cyclicGraph = [(''@a'', [''@b'', ''@a'']), (''@b'', [''@a''])]"

text \<open>
  The dedup index that a rebuild computes from the canonical keys of the replayed rows, in
  row order (a later row with the same key overwrites the index of an earlier one).
\<close>

fun indexKeys :: "string list \<Rightarrow> nat \<Rightarrow> (string \<times> nat) list \<Rightarrow> (string \<times> nat) list" where
  "indexKeys [] index m = m"
| "indexKeys (k # ks) index m = indexKeys ks (index + 1) (AList.update k index m)"

text \<open>
  Invariants of the engine state: every table stores one source record per row, all of
  them object-like; every column list is a result of the column ordering.
\<close>

definition tablesParallel :: "SCOLT \<Rightarrow> bool" where
  "tablesParallel st =
     (\<forall>n t. map_of (tableRegistry st) n = Some t \<longrightarrow>
        length (rows t) = length (originalData t) \<and> list_all isObjectLike (originalData t))"

definition columnsSorted :: "(string \<Rightarrow> string \<Rightarrow> int) \<Rightarrow> SCOLT \<Rightarrow> bool" where
  "columnsSorted lc st =
     (\<forall>n t. map_of (tableRegistry st) n = Some t \<longrightarrow> (\<exists>cs. columns t = sortColumnNames lc cs))"

text \<open>The engine after the traversal of \<^verbatim>\<open>[{"id":1},{"id":2}]\<close> under the context users.\<close>

definition usersTable :: TableData where
  "usersTable =
     \<lparr>columns = [''id''], rows = [[''1''], [''2'']],
      originalData = [JObj [(''id'', JNum 1)], JObj [(''id'', JNum 2)]]\<rparr>"

definition usersState :: SCOLT where
  "usersState =
     \<lparr>tableRegistry = [(''@users'', usersTable)],
      arrayReferenceCache =
        [(stringify (JArr [JObj [(''id'', JNum 1)], JObj [(''id'', JNum 2)]]), ''@users[0,1]'')],
      tableIndexCounters = [(''@users'', 2)], rootLevelKeys = [],
      objectToIndexMap = [(''@users'', 0)],
      mapObjects =
        [[(stringify (JObj [(''id'', JNum 1)]), 0), (stringify (JObj [(''id'', JNum 2)]), 1)]],
      defaultValues = [], tableStructure = []\<rparr>"

text \<open>Column names of lower-case ASCII letters and digits.\<close>

definition lowerCaseName :: "string \<Rightarrow> bool" where
  "lowerCaseName s =
     list_all (\<lambda>c. (97 \<le> (of_char c :: nat) \<and> (of_char c :: nat) \<le> 122) \<or>
                    (48 \<le> (of_char c :: nat) \<and> (of_char c :: nat) \<le> 57)) s"





section \<open>Basic properties of the embedding\<close>

lemma hasProperty_JObj: "hasProperty (JObj kvs) c = Inr (c \<in> fst ` set kvs)"
  by (simp add: hasProperty_def)

lemma getProperty_JObj: "getProperty (JObj kvs) c = Inr (map_of kvs c)"
  by (simp add: getProperty_def)

lemma applyDefaultsLoop_total:
  "isObjectLike item \<Longrightarrow> \<exists>row. applyDefaultsLoop dv item acc cols = Inr row"
proof (induction cols arbitrary: acc)
  case Nil
  show ?case by simp
next
  case (Cons c cs)
  then show ?case
    by (cases item) (auto simp: isObjectLike_def hasProperty_def getProperty_def)
qed

lemma applyDefaultsToRow_total:
  "isObjectLike item \<Longrightarrow> \<exists>row. applyDefaultsToRow dv item cols = Inr row"
  by (simp add: applyDefaultsToRow_def applyDefaultsLoop_total)

lemma applyDefaultsToRow_objectLike:
  "applyDefaultsToRow dv item cols = Inr row \<Longrightarrow> cols \<noteq> [] \<Longrightarrow> isObjectLike item"
  by (cases cols; cases item)
     (auto simp: applyDefaultsToRow_def hasProperty_def isObjectLike_def)

lemma serializePrimitive_total:
  "\<not> isObjectLike v \<Longrightarrow> \<exists>text. serializePrimitive v = Inr text"
  by (cases v) (simp_all add: serializePrimitive_def isObjectLike_def)

lemma resolveReference_total: "\<exists>text. resolveReference st v ctx = Inr text"
proof (cases "isObjectLike v")
  case False
  then show ?thesis using serializePrimitive_total [of v] by (simp add: resolveReference_def)
next
  case True
  show ?thesis
  proof (cases "map_of (arrayReferenceCache st) (stringify v)")
    case (Some cached)
    then show ?thesis using True by (simp add: resolveReference_def)
  next
    case None
    show ?thesis
    proof (cases "map_of (tableRegistry st) (resolveTableName st ctx)")
      case None
      then show ?thesis
        using True \<open>map_of (arrayReferenceCache st) (stringify v) = None\<close>
        by (simp add: resolveReference_def)
    next
      case (Some table)
      obtain nr where nr: "applyDefaultsToRow (defaultValues st) v (columns table) = Inr nr"
        using applyDefaultsToRow_total [OF True] by blast
      show ?thesis
        using True \<open>map_of (arrayReferenceCache st) (stringify v) = None\<close> Some nr
        by (cases v) (auto simp: resolveReference_def Let_def split: option.splits)
    qed
  qed
qed

lemma renderCell_total: "\<exists>cell. renderCell st nr c = Inr cell"
proof (cases "map_of nr c")
  case None
  then show ?thesis by (simp add: renderCell_def)
next
  case (Some v)
  show ?thesis
  proof (cases "typeofObject v")
    case True
    then show ?thesis using Some resolveReference_total [of st v c] by (simp add: renderCell_def)
  next
    case False
    then have "\<not> isObjectLike v" by (simp add: typeofObject_def)
    then show ?thesis
      using Some False serializePrimitive_total [of v] by (simp add: renderCell_def)
  qed
qed

lemma renderRow_total: "\<exists>row. renderRow st nr cols = Inr row \<and> length row = length cols"
proof (induction cols)
  case Nil
  show ?case by simp
next
  case (Cons c cs)
  obtain cell where "renderCell st nr c = Inr cell"
    using renderCell_total by blast
  then show ?case using Cons by auto
qed

lemma rebuildRow_total:
  assumes "isObjectLike item"
  shows "\<exists>k row. rebuildRow st cols item = Inr (k, row) \<and> length row = length cols"
proof -
  obtain nr where nr: "applyDefaultsToRow (defaultValues st) item cols = Inr nr"
    using applyDefaultsToRow_total [OF assms] by blast
  obtain row where "renderRow st nr cols = Inr row" "length row = length cols"
    using renderRow_total by blast
  then show ?thesis using nr by (simp add: rebuildRow_def)
qed


lemma mapResult_map:
  "\<forall>x \<in> set xs. f x = Inr (g x) \<Longrightarrow> mapResult f xs = Inr (map g xs)"
  by (induction xs) simp_all


lemma serializePrimitive_empty_record: "serializePrimitive (JObj []) = Inr ''[object Object]''"
  by (simp add: serializePrimitive_def)
section \<open>Properties of the stable sort and of the column order\<close>

lemma indexOf_absent: "(indexOf xs a = - 1) = (a \<notin> set xs)"
  and indexOf_nonneg: "a \<in> set xs \<Longrightarrow> 0 \<le> indexOf xs a"
  by (induction xs) (auto simp: Let_def)

lemma indexOf_range: "indexOf xs a = - 1 \<or> 0 \<le> indexOf xs a"
  using indexOf_absent [of xs a] indexOf_nonneg [of a xs] by blast

lemma indexOf_Cons_neq:
  "x \<noteq> a \<Longrightarrow> indexOf (x # xs) a = (if indexOf xs a = - 1 then - 1 else indexOf xs a + 1)"
  by (simp add: Let_def)

lemma indexOf_inj: "a \<in> set xs \<Longrightarrow> indexOf xs a = indexOf xs b \<Longrightarrow> a = b"
proof (induction xs)
  case Nil
  then show ?case by simp
next
  case (Cons x xs)
  show ?case
  proof (cases "x = a")
    case True
    show ?thesis
    proof (rule ccontr)
      assume ne: "a \<noteq> b"
      then have "indexOf (x # xs) b = (if indexOf xs b = - 1 then - 1 else indexOf xs b + 1)"
        using True indexOf_Cons_neq [of x b xs] by simp
      moreover have "indexOf (x # xs) a = 0" using True by simp
      ultimately have "(if indexOf xs b = - 1 then - 1 else indexOf xs b + 1) = 0"
        using Cons.prems(2) by simp
      then show False
        using indexOf_range [of xs b] by (simp split: if_splits)
    qed
  next
    case False
    then have a: "a \<in> set xs" using Cons.prems(1) by simp
    then have na: "indexOf xs a \<noteq> - 1" by (simp add: indexOf_absent)
    have ia: "indexOf (x # xs) a = indexOf xs a + 1"
      using False na indexOf_Cons_neq [of x a xs] by simp
    have xb: "x \<noteq> b"
    proof
      assume "x = b"
      then have "indexOf (x # xs) b = 0" by simp
      then show False using ia Cons.prems(2) indexOf_nonneg [OF a] by simp
    qed
    have ib: "indexOf (x # xs) b = (if indexOf xs b = - 1 then - 1 else indexOf xs b + 1)"
      using xb indexOf_Cons_neq [of x b xs] by simp
    have "indexOf xs a = indexOf xs b"
      using ia ib Cons.prems(2) indexOf_nonneg [OF a] by (simp split: if_splits)
    then show ?thesis using Cons.IH [OF a] by simp
  qed
qed

lemma set_insertSorted: "set (insertSorted cmp x ys) = insert x (set ys)"
  by (induction ys) auto

lemma distinct_insertSorted: "distinct (insertSorted cmp x ys) = (x \<notin> set ys \<and> distinct ys)"
  by (induction ys) (auto simp: set_insertSorted)

lemma length_insertSorted: "length (insertSorted cmp x ys) = Suc (length ys)"
  by (induction ys) auto

lemma arraySort_Cons: "arraySort cmp (x # xs) = insertSorted cmp x (arraySort cmp xs)"
  by (simp add: arraySort_def)

lemma arraySort_Nil: "arraySort cmp [] = []"
  by (simp add: arraySort_def)

lemma set_arraySort: "set (arraySort cmp xs) = set xs"
  by (induction xs) (simp_all add: arraySort_Nil arraySort_Cons set_insertSorted)

lemma distinct_arraySort: "distinct (arraySort cmp xs) = distinct xs"
  by (induction xs)
     (simp_all add: arraySort_Nil arraySort_Cons distinct_insertSorted set_arraySort)

lemma length_arraySort: "length (arraySort cmp xs) = length xs"
  by (induction xs) (simp_all add: arraySort_Nil arraySort_Cons length_insertSorted)

lemma sorted_insertSorted:
  assumes total: "\<And>a b. a \<in> S \<Longrightarrow> b \<in> S \<Longrightarrow> cmp a b \<le> 0 \<or> cmp b a \<le> 0"
    and trans: "\<And>a b c. a \<in> S \<Longrightarrow> b \<in> S \<Longrightarrow> c \<in> S \<Longrightarrow> cmp a b \<le> 0 \<Longrightarrow> cmp b c \<le> 0 \<Longrightarrow> cmp a c \<le> 0"
    and x: "x \<in> S" and ys: "set ys \<subseteq> S"
    and sorted: "sorted_wrt (\<lambda>a b. cmp a b \<le> 0) ys"
  shows "sorted_wrt (\<lambda>a b. cmp a b \<le> 0) (insertSorted cmp x ys)"
  using ys sorted
proof (induction ys)
  case Nil
  then show ?case by simp
next
  case (Cons y ys)
  show ?case
  proof (cases "cmp x y \<le> 0")
    case True
    have "\<forall>z \<in> set ys. cmp x z \<le> 0"
    proof
      fix z assume z: "z \<in> set ys"
      then have "cmp y z \<le> 0" using Cons.prems(2) by simp
      then show "cmp x z \<le> 0"
        using trans [of x y z] x Cons.prems(1) z True by auto
    qed
    then show ?thesis using True Cons.prems(2) by simp
  next
    case False
    then have yx: "cmp y x \<le> 0"
      using total [of x y] x Cons.prems(1) by auto
    have "sorted_wrt (\<lambda>a b. cmp a b \<le> 0) (insertSorted cmp x ys)"
      using Cons by simp
    then show ?thesis
      using False yx Cons.prems(2) by (auto simp: set_insertSorted)
  qed
qed

lemma sorted_arraySort:
  assumes total: "\<And>a b. a \<in> S \<Longrightarrow> b \<in> S \<Longrightarrow> cmp a b \<le> 0 \<or> cmp b a \<le> 0"
    and trans: "\<And>a b c. a \<in> S \<Longrightarrow> b \<in> S \<Longrightarrow> c \<in> S \<Longrightarrow> cmp a b \<le> 0 \<Longrightarrow> cmp b c \<le> 0 \<Longrightarrow> cmp a c \<le> 0"
    and xs: "set xs \<subseteq> S"
  shows "sorted_wrt (\<lambda>a b. cmp a b \<le> 0) (arraySort cmp xs)"
  using xs
proof (induction xs)
  case Nil
  then show ?case by (simp add: arraySort_Nil)
next
  case (Cons x xs)
  then have ih: "sorted_wrt (\<lambda>a b. cmp a b \<le> 0) (arraySort cmp xs)" by simp
  have x: "x \<in> S" and sub: "set (arraySort cmp xs) \<subseteq> S"
    using Cons.prems by (simp_all add: set_arraySort)
  show ?case
    unfolding arraySort_Cons
    by (rule sorted_insertSorted [where S = S, OF total trans x sub ih])
qed

lemma insertSorted_sorted_id:
  "sorted_wrt (\<lambda>a b. cmp a b \<le> 0) (x # ys) \<Longrightarrow> insertSorted cmp x ys = x # ys"
  by (cases ys) auto

lemma arraySort_sorted_id:
  "sorted_wrt (\<lambda>a b. cmp a b \<le> 0) xs \<Longrightarrow> arraySort cmp xs = xs"
proof (induction xs)
  case Nil
  then show ?case by (simp add: arraySort_Nil)
next
  case (Cons x xs)
  then have "arraySort cmp xs = xs" by simp
  then show ?case
    using insertSorted_sorted_id [OF Cons.prems] by (simp add: arraySort_Cons)
qed

lemma insertSorted_cong:
  "\<forall>y \<in> set ys. cmp x y = cmp' x y \<Longrightarrow> insertSorted cmp x ys = insertSorted cmp' x ys"
  by (induction ys) auto

lemma arraySort_cong:
  "\<forall>x \<in> set xs. \<forall>y \<in> set xs. cmp x y = cmp' x y \<Longrightarrow> arraySort cmp xs = arraySort cmp' xs"
proof (induction xs)
  case Nil
  then show ?case by (simp add: arraySort_Nil)
next
  case (Cons x xs)
  then have "arraySort cmp xs = arraySort cmp' xs" by simp
  moreover have "insertSorted cmp x (arraySort cmp' xs) = insertSorted cmp' x (arraySort cmp' xs)"
    using Cons.prems by (intro insertSorted_cong) (simp add: set_arraySort)
  ultimately show ?case by (simp add: arraySort_Cons)
qed

lemma compareColumns_cases:
  "compareColumns lc a b =
     (if isPriority a \<and> isPriority b then indexOf priorityColumns a - indexOf priorityColumns b
      else if isPriority a then - 1
      else if isPriority b then 1
      else lc a b)"
  by (simp add: compareColumns_def isPriority_def indexOf_absent Let_def)


lemma insertSorted_priority:
  assumes ps: "\<forall>p \<in> set ps. isPriority p" and rs: "\<forall>r \<in> set rs. \<not> isPriority r"
    and x: "isPriority x"
  shows "insertSorted (compareColumns lc) x (ps @ rs) = insertSorted (compareColumns lc) x ps @ rs"
  using ps
proof (induction ps)
  case Nil
  show ?case using rs x by (cases rs) (simp_all add: compareColumns_cases)
next
  case (Cons p ps)
  then show ?case by simp
qed

lemma insertSorted_remainder:
  assumes ps: "\<forall>p \<in> set ps. isPriority p" and rs: "\<forall>r \<in> set rs. \<not> isPriority r"
    and x: "\<not> isPriority x"
  shows "insertSorted (compareColumns lc) x (ps @ rs) = ps @ insertSorted lc x rs"
  using ps
proof (induction ps)
  case Nil
  have "insertSorted (compareColumns lc) x rs = insertSorted lc x rs"
    using rs x by (intro insertSorted_cong) (simp add: compareColumns_cases)
  then show ?case by simp
next
  case (Cons p ps)
  then show ?case using x by (simp add: compareColumns_cases)
qed

lemma arraySort_compareColumns_split:
  "arraySort (compareColumns lc) cols =
     arraySort (compareColumns lc) (filter isPriority cols) @
     arraySort lc (filter (\<lambda>c. \<not> isPriority c) cols)"
proof (induction cols)
  case Nil
  show ?case by (simp add: arraySort_Nil)
next
  case (Cons c cols)
  let ?ps = "arraySort (compareColumns lc) (filter isPriority cols)"
  let ?rs = "arraySort lc (filter (\<lambda>c. \<not> isPriority c) cols)"
  have ps: "\<forall>p \<in> set ?ps. isPriority p" and rs: "\<forall>r \<in> set ?rs. \<not> isPriority r"
    by (simp_all add: set_arraySort)
  show ?case
  proof (cases "isPriority c")
    case True
    then show ?thesis
      using Cons.IH insertSorted_priority [OF ps rs True, of lc]
      by (simp add: arraySort_Cons)
  next
    case False
    then show ?thesis
      using Cons.IH insertSorted_remainder [OF ps rs False, of lc]
      by (simp add: arraySort_Cons)
  qed
qed

lemma compareColumns_priority:
  "isPriority a \<Longrightarrow> isPriority b \<Longrightarrow>
   compareColumns lc a b = indexOf priorityColumns a - indexOf priorityColumns b"
  by (simp add: compareColumns_cases)

lemma arraySort_priority_part:
  assumes d: "distinct cols"
  shows "arraySort (compareColumns lc) (filter isPriority cols) =
         filter (\<lambda>p. p \<in> set cols) priorityColumns"
proof -
  let ?idx = "indexOf priorityColumns"
  let ?ys = "arraySort (compareColumns lc) (filter isPriority cols)"
  let ?zs = "filter (\<lambda>p. p \<in> set cols) priorityColumns"
  have set_ys: "set ?ys = {c \<in> set cols. isPriority c}"
    by (simp add: set_arraySort)
  have set_zs: "set ?zs = {c \<in> set cols. isPriority c}"
    by (auto simp: isPriority_def)
  have dist_ys: "distinct ?ys"
    using d by (simp add: distinct_arraySort)
  have dist_zs: "distinct ?zs"
    by (simp add: priorityColumns_def)
  have "sorted_wrt (\<lambda>a b. compareColumns lc a b \<le> 0) ?ys"
  proof (rule sorted_arraySort [where S = "Collect isPriority"])
    fix a b assume "a \<in> Collect isPriority" "b \<in> Collect isPriority"
    then show "compareColumns lc a b \<le> 0 \<or> compareColumns lc b a \<le> 0"
      by (simp add: compareColumns_priority) arith
  next
    fix a b c
    assume "a \<in> Collect isPriority" "b \<in> Collect isPriority" "c \<in> Collect isPriority"
      and "compareColumns lc a b \<le> 0" "compareColumns lc b c \<le> 0"
    then show "compareColumns lc a c \<le> 0"
      by (simp add: compareColumns_priority)
  next
    show "set (filter isPriority cols) \<subseteq> Collect isPriority" by auto
  qed
  then have "sorted_wrt (\<lambda>a b. ?idx a \<le> ?idx b) ?ys"
  proof (rule sorted_wrt_mono_rel [rotated])
    fix a b assume "a \<in> set ?ys" "b \<in> set ?ys" "compareColumns lc a b \<le> 0"
    then show "?idx a \<le> ?idx b"
      by (simp add: set_arraySort compareColumns_priority)
  qed
  then have sorted_ys: "sorted (map ?idx ?ys)"
    by (simp add: sorted_map)
  have "sorted_wrt (\<lambda>a b. ?idx a \<le> ?idx b) priorityColumns"
    by (simp add: priorityColumns_def)
  then have "sorted_wrt (\<lambda>a b. ?idx a \<le> ?idx b) ?zs"
    by (rule sorted_wrt_filter)
  then have sorted_zs: "sorted (map ?idx ?zs)"
    by (simp add: sorted_map)
  have inj: "inj_on ?idx (set ?ys \<union> set ?zs)"
    unfolding set_ys set_zs
    by (rule inj_onI) (auto simp: isPriority_def dest: indexOf_inj)
  have "distinct (map ?idx ?ys)" "distinct (map ?idx ?zs)"
    using dist_ys dist_zs inj by (auto simp: distinct_map intro: inj_on_subset)
  moreover have "set (map ?idx ?ys) = set (map ?idx ?zs)"
    using set_ys set_zs by simp
  ultimately have "map ?idx ?ys = map ?idx ?zs"
    using sorted_ys sorted_zs by (intro sorted_distinct_set_unique)
  then show ?thesis
    using inj by (simp add: inj_on_map_eq_map)
qed

lemma sortColumnNames_split:
  "distinct cols \<Longrightarrow>
   sortColumnNames lc cols =
     filter (\<lambda>p. p \<in> set cols) priorityColumns @
     arraySort lc (filter (\<lambda>c. c \<notin> set priorityColumns) cols)"
  using arraySort_compareColumns_split [of lc cols] arraySort_priority_part [of cols lc]
  by (simp add: sortColumnNames_def isPriority_def)

text \<open>
  The modelled collation is a total preorder, and on names of lower-case letters and
  digits it is the comparison of code units.
\<close>

lemma compareWeights_range: "compareWeights a b \<in> {- 1, 0, 1}"
  by (induction a b rule: compareWeights.induct) auto

lemma compareWeights_flip: "compareWeights b a = - compareWeights a b"
  by (induction a b rule: compareWeights.induct) auto

lemma compareWeights_zero: "compareWeights a b = 0 \<longleftrightarrow> a = b"
  by (induction a b rule: compareWeights.induct) auto

lemma compareWeights_trans:
  "compareWeights a b \<le> 0 \<Longrightarrow> compareWeights b c \<le> 0 \<Longrightarrow> compareWeights a c \<le> 0"
proof (induction a arbitrary: b c)
  case Nil
  then show ?case by (cases c) auto
next
  case (Cons x xs)
  then obtain y ys where b: "b = y # ys" by (cases b) auto
  with Cons.prems obtain z zs where c: "c = z # zs" by (cases c) auto
  show ?case
    using Cons.prems Cons.IH [of ys zs] unfolding b c
    by (auto split: if_splits)
qed

lemma compareWeights_strict_trans:
  assumes "compareWeights a b < 0" and "compareWeights b c \<le> 0"
  shows "compareWeights a c < 0"
proof -
  have le: "compareWeights a c \<le> 0"
    using assms compareWeights_trans [of a b c] by simp
  have "a \<noteq> c"
  proof
    assume "a = c"
    then have "compareWeights b a \<le> 0" using assms(2) by simp
    then show False using assms(1) compareWeights_flip [of b a] by simp
  qed
  then have "compareWeights a c \<noteq> 0" by (simp add: compareWeights_zero)
  then show ?thesis using le by simp
qed

lemma localeCompare_le:
  "localeCompare a b \<le> 0 \<longleftrightarrow>
     compareWeights (map primaryWeight a) (map primaryWeight b) < 0 \<or>
     (map primaryWeight a = map primaryWeight b \<and>
      compareWeights (map caseWeight a) (map caseWeight b) \<le> 0)"
  using compareWeights_zero [of "map primaryWeight a" "map primaryWeight b"]
  by (auto simp: localeCompare_def Let_def)

lemma localeCompare_total: "localeCompare a b \<le> 0 \<or> localeCompare b a \<le> 0"
proof -
  let ?p = "compareWeights (map primaryWeight a) (map primaryWeight b)"
  let ?t = "compareWeights (map caseWeight a) (map caseWeight b)"
  consider "?p < 0" | "?p = 0" | "0 < ?p" by linarith
  then show ?thesis
  proof cases
    case 1
    then show ?thesis by (simp add: localeCompare_le)
  next
    case 2
    then have e: "map primaryWeight a = map primaryWeight b" by (simp add: compareWeights_zero)
    have "?t \<le> 0 \<or> compareWeights (map caseWeight b) (map caseWeight a) \<le> 0"
      using compareWeights_flip [of "map caseWeight b" "map caseWeight a"] by linarith
    then show ?thesis using e by (auto simp: localeCompare_le)
  next
    case 3
    then have "compareWeights (map primaryWeight b) (map primaryWeight a) < 0"
      using compareWeights_flip [of "map primaryWeight b" "map primaryWeight a"] by simp
    then show ?thesis by (simp add: localeCompare_le)
  qed
qed

lemma localeCompare_trans:
  assumes ab: "localeCompare a b \<le> 0" and bc: "localeCompare b c \<le> 0"
  shows "localeCompare a c \<le> 0"
proof -
  let ?P = "\<lambda>x y. compareWeights (map primaryWeight x) (map primaryWeight y)"
  let ?T = "\<lambda>x y. compareWeights (map caseWeight x) (map caseWeight y)"
  from ab consider (lt) "?P a b < 0" | (eq) "map primaryWeight a = map primaryWeight b" "?T a b \<le> 0"
    by (auto simp: localeCompare_le)
  then show ?thesis
  proof cases
    case lt
    have "?P b c \<le> 0"
    proof (cases "map primaryWeight b = map primaryWeight c")
      case True
      then have "?P b c = 0" by (simp only: compareWeights_zero)
      then show ?thesis by simp
    next
      case False
      then show ?thesis using bc by (simp add: localeCompare_le)
    qed
    then have "?P a c < 0" using lt by (rule compareWeights_strict_trans [rotated])
    then show ?thesis by (simp add: localeCompare_le)
  next
    case eq
    from bc consider (lt2) "?P b c < 0" | (eq2) "map primaryWeight b = map primaryWeight c" "?T b c \<le> 0"
      by (auto simp: localeCompare_le)
    then show ?thesis
    proof cases
      case lt2
      then show ?thesis using eq(1) by (simp add: localeCompare_le)
    next
      case eq2
      have "?T a c \<le> 0" using eq(2) eq2(2) by (rule compareWeights_trans)
      then show ?thesis using eq(1) eq2(1) by (simp add: localeCompare_le)
    qed
  qed
qed

lemma localeCompare_lowerCase:
  "lowerCaseName a \<Longrightarrow> lowerCaseName b \<Longrightarrow> localeCompare a b = codeUnitCompare a b"
proof (induction a b rule: codeUnitCompare.induct)
  case 1
  show ?case by (simp add: localeCompare_def)
next
  case (2 y ys)
  show ?case by (simp add: localeCompare_def)
next
  case (3 x xs)
  show ?case by (simp add: localeCompare_def)
next
  case (4 x xs y ys)
  have m: "primaryWeight x < primaryWeight y \<longleftrightarrow> (of_char x :: nat) < of_char y"
    "primaryWeight y < primaryWeight x \<longleftrightarrow> (of_char y :: nat) < of_char x"
    using "4.prems" by (auto simp: lowerCaseName_def primaryWeight_def Let_def)
  have t: "caseWeight x = 0" "caseWeight y = 0"
    using "4.prems" by (auto simp: lowerCaseName_def caseWeight_def)
  have r: "lowerCaseName xs" "lowerCaseName ys"
    using "4.prems" by (auto simp: lowerCaseName_def)
  show ?case
  proof (cases "(of_char x :: nat) < of_char y \<or> (of_char y :: nat) < of_char x")
    case True
    then show ?thesis using m by (auto simp: localeCompare_def Let_def)
  next
    case False
    then have ih: "localeCompare xs ys = codeUnitCompare xs ys"
      using "4.IH" r by simp
    show ?thesis
      using False m t ih by (auto simp: localeCompare_def Let_def)
  qed
qed
section \<open>Properties of the reference text\<close>

lemma digit_code: "d < 10 \<Longrightarrow> of_char (''0123456789'' ! d) = (48 + d :: nat)"
proof -
  assume "d < 10"
  then have "d \<in> {0, 1, 2, 3, 4, 5, 6, 7, 8, 9}" by auto
  then show ?thesis by auto
qed

lemma isDigit_digit: "d < 10 \<Longrightarrow> isDigit (''0123456789'' ! d)"
  using digit_code [of d] by (simp add: isDigit_def)

lemma showNat_digits: "list_all isDigit (showNat n)"
proof (induction n rule: showNat.induct)
  case (1 n)
  show ?case
  proof (cases "n < 10")
    case True
    then show ?thesis by (subst showNat.simps) (simp add: isDigit_digit)
  next
    case False
    then show ?thesis using 1 by (subst showNat.simps) (simp add: isDigit_digit)
  qed
qed

lemma showNat_nonempty: "showNat n \<noteq> []"
  by (subst showNat.simps) simp

lemma jsNumber_snoc: "jsNumber (s @ [c]) = 10 * jsNumber s + (of_char c - 48)"
  by (simp add: jsNumber_def)

lemma jsNumber_showNat: "jsNumber (showNat n) = n"
proof (induction n rule: showNat.induct)
  case (1 n)
  show ?case
  proof (cases "n < 10")
    case True
    then show ?thesis
      by (subst showNat.simps) (simp add: jsNumber_def digit_code)
  next
    case False
    then have "jsNumber (showNat (n div 10)) = n div 10" using 1 by simp
    then show ?thesis
      using False by (subst showNat.simps) (simp add: jsNumber_snoc digit_code)
  qed
qed

lemma splitOn_no_separator: "sep \<notin> set t \<Longrightarrow> splitOn sep t = [t]"
  by (induction t) auto

lemma splitOn_append:
  "sep \<notin> set t \<Longrightarrow> splitOn sep (t @ sep # rest) = t # splitOn sep rest"
  by (induction t) auto

lemma splitOn_join:
  "ts \<noteq> [] \<Longrightarrow> \<forall>t \<in> set ts. sep \<notin> set t \<Longrightarrow> splitOn sep (join [sep] ts) = ts"
proof (induction ts rule: induct_list012)
  case 1
  then show ?case by simp
next
  case (2 x)
  then show ?case by (simp add: splitOn_no_separator)
next
  case (3 x y zs)
  then have "splitOn sep (join [sep] (y # zs)) = y # zs" by simp
  moreover have "sep \<notin> set x" using 3 by simp
  ultimately show ?case by (simp add: splitOn_append)
qed

lemma comma_not_digit: "isDigit c \<Longrightarrow> c \<noteq> CHR '',''"
  by (auto simp: isDigit_def)

lemma join_digits:
  "\<forall>t \<in> set ts. list_all isDigit t \<Longrightarrow>
   list_all (\<lambda>d. isDigit d \<or> d = CHR '','') (join '','' ts)"
  by (induction ts rule: induct_list012) (auto simp: list_all_iff)

lemma join_nonempty:
  "ts \<noteq> [] \<Longrightarrow> \<forall>t \<in> set ts. t \<noteq> [] \<Longrightarrow> join sep ts \<noteq> []"
  by (induction ts rule: induct_list012) auto

lemma indexText_split:
  assumes "indices \<noteq> []"
  shows "map jsNumber (splitOn CHR '','' (join '','' (map showNat indices))) = indices"
proof -
  have "\<forall>t \<in> set (map showNat indices). CHR '','' \<notin> set t"
    using showNat_digits comma_not_digit by (auto simp: list_all_iff)
  then have "splitOn CHR '','' (join '','' (map showNat indices)) = map showNat indices"
    using assms by (intro splitOn_join) simp_all
  then show ?thesis by (simp add: jsNumber_showNat comp_def)
qed

lemma matchRowsReference_rowsReference:
  assumes "w \<noteq> []" and "list_all isWordChar w" and "indices \<noteq> []"
  shows "matchRowsReference (rowsReference (CHR ''@'' # w) indices) =
           Some (CHR ''@'' # w, join '','' (map showNat indices))"
proof -
  let ?body = "join '','' (map showNat indices)"
  have nw: "\<not> isWordChar CHR ''[''"
    by (simp add: isWordChar_def)
  have tw: "takeWhile isWordChar (w @ CHR ''['' # ?body @ '']'') = w"
    using assms(2) nw by (simp add: takeWhile_tail list_all_iff)
  have dw: "dropWhile isWordChar (w @ CHR ''['' # ?body @ '']'') = CHR ''['' # ?body @ '']''"
    using assms(2) nw by (simp add: dropWhile_append2 list_all_iff)
  have ne: "?body \<noteq> []"
    using assms(3) by (intro join_nonempty) (simp_all add: showNat_nonempty)
  have dg: "list_all (\<lambda>d. isDigit d \<or> d = CHR '','') ?body"
    by (rule join_digits) (simp add: showNat_digits)
  show ?thesis
    using assms(1) ne dg
    by (simp add: matchRowsReference_def rowsReference_def tw dw)
qed

lemma sortedIndices:
  "sorted_wrt (\<lambda>a b. int a - int b \<le> 0) xs = sorted xs"
  by (induction xs) auto

lemma isSequential_iff: "isSequentialFullTableReference xs n = (xs = [0..<n])"
proof -
  have 1: "list_all (\<lambda>(v, index). v = index) (zip xs [0..<length xs]) =
           (\<forall>i<length xs. xs ! i = i)"
    by (simp add: list_all_length)
  have "(xs = [0..<length xs]) =
        (length xs = length [0..<length xs] \<and> (\<forall>i<length xs. xs ! i = [0..<length xs] ! i))"
    by (rule list_eq_iff_nth_eq)
  also have "\<dots> = (\<forall>i<length xs. xs ! i = i)"
    by simp
  finally have 2: "(xs = [0..<length xs]) = (\<forall>i<length xs. xs ! i = i)" .
  show ?thesis
    unfolding isSequentialFullTableReference_def 1 2 [symmetric] by auto
qed

section \<open>The engine state: rebuilding and traversal invariants\<close>

text \<open>
  The dedup index built by a rebuild maps every canonical key to the last row that has it;
  a rebuild replays every stored record in order.
\<close>

lemma indexKeys_other: "k \<notin> set ks \<Longrightarrow> map_of (indexKeys ks index m) k = map_of m k"
  by (induction ks arbitrary: index m) (auto simp: update_conv')

lemma indexKeys_member:
  "i < length ks \<Longrightarrow>
   \<exists>j. i \<le> j \<and> j < length ks \<and> ks ! j = ks ! i \<and>
       map_of (indexKeys ks index m) (ks ! i) = Some (index + j)"
proof (induction ks arbitrary: index m i)
  case Nil
  then show ?case by simp
next
  case (Cons k ks)
  show ?case
  proof (cases i)
    case 0
    show ?thesis
    proof (cases "k \<in> set ks")
      case True
      then obtain i' where i': "i' < length ks" "ks ! i' = k"
        by (auto simp: in_set_conv_nth)
      from Cons.IH [OF i'(1), of "index + 1" "AList.update k index m"]
      obtain j where "i' \<le> j" "j < length ks" "ks ! j = ks ! i'"
        "map_of (indexKeys ks (index + 1) (AList.update k index m)) (ks ! i') = Some (index + 1 + j)"
        by blast
      then show ?thesis
        using 0 i' by (intro exI [of _ "Suc j"]) simp
    next
      case False
      then show ?thesis
        using 0 by (intro exI [of _ 0]) (simp add: indexKeys_other update_conv')
    qed
  next
    case (Suc i')
    then have "i' < length ks" using Cons.prems by simp
    from Cons.IH [OF this, of "index + 1" "AList.update k index m"]
    obtain j where "i' \<le> j" "j < length ks" "ks ! j = ks ! i'"
      "map_of (indexKeys ks (index + 1) (AList.update k index m)) (ks ! i') = Some (index + 1 + j)"
      by blast
    then show ?thesis
      using Suc by (intro exI [of _ "Suc j"]) simp
  qed
qed

lemma indexKeys_Some:
  "map_of (indexKeys ks index m) k = Some j \<Longrightarrow>
   (k \<notin> set ks \<and> map_of m k = Some j) \<or> (index \<le> j \<and> j < index + length ks \<and> ks ! (j - index) = k)"
proof (induction ks arbitrary: index m)
  case Nil
  then show ?case by simp
next
  case (Cons k' ks)
  have "map_of (indexKeys ks (index + 1) (AList.update k' index m)) k = Some j"
    using Cons.prems by simp
  from Cons.IH [OF this]
  consider (old) "k \<notin> set ks" "map_of (AList.update k' index m) k = Some j"
    | (new) "index + 1 \<le> j" "j < index + 1 + length ks" "ks ! (j - (index + 1)) = k"
    by auto
  then show ?case
  proof cases
    case old
    then show ?thesis
      by (cases "k = k'") (auto simp: update_conv')
  next
    case new
    then have "(k' # ks) ! (j - index) = k"
      by (simp add: nth_Cons' Suc_diff_le)
    then show ?thesis using new by auto
  qed
qed

lemma rebuildRows_spec:
  assumes "list_all isObjectLike items"
  shows "\<exists>keys newRows.
           rebuildRows st cols items index m = Inr (newRows, indexKeys keys index m) \<and>
           length keys = length items \<and> length newRows = length items \<and>
           (\<forall>i < length items. rebuildRow st cols (items ! i) = Inr (keys ! i, newRows ! i))"
  using assms
proof (induction items arbitrary: index m)
  case Nil
  show ?case by (intro exI [of _ "[]"]) simp
next
  case (Cons item items)
  obtain k row where kr: "rebuildRow st cols item = Inr (k, row)"
    using rebuildRow_total [of item st cols] Cons.prems by auto
  from Cons.IH [of "index + 1" "AList.update k index m"] Cons.prems
  obtain keys newRows where
    r: "rebuildRows st cols items (index + 1) (AList.update k index m) =
          Inr (newRows, indexKeys keys (index + 1) (AList.update k index m))"
    and l: "length keys = length items" "length newRows = length items"
    and e: "\<forall>i < length items. rebuildRow st cols (items ! i) = Inr (keys ! i, newRows ! i)"
    by auto
  show ?case
  proof (intro exI [of _ "k # keys"] exI [of _ "row # newRows"] conjI allI impI)
    show "rebuildRows st cols (item # items) index m =
            Inr (row # newRows, indexKeys (k # keys) index m)"
      using kr r by simp
    show "length (k # keys) = length (item # items)" using l by simp
    show "length (row # newRows) = length (item # items)" using l by simp
    fix i assume "i < length (item # items)"
    then show "rebuildRow st cols ((item # items) ! i) = Inr ((k # keys) ! i, (row # newRows) ! i)"
      using kr e by (cases i) simp_all
  qed
qed


lemma hasColumnsChanged_iff: "hasColumnsChanged old new = (old \<noteq> new)"
proof (cases "length old = length new")
  case False
  then show ?thesis by (auto simp: hasColumnsChanged_def)
next
  case True
  have "list_all (\<lambda>(column, index). column = old ! index) (zip new [0..<length new]) =
        (\<forall>i<length new. new ! i = old ! i)"
    by (simp add: list_all_length)
  moreover have "(old = new) = (length old = length new \<and> (\<forall>i<length old. old ! i = new ! i))"
    by (rule list_eq_iff_nth_eq)
  ultimately show ?thesis
    using True unfolding hasColumnsChanged_def by auto
qed

lemma rebuildTableWithNewColumns_spec:
  assumes reg: "map_of (tableRegistry st) tableName = Some table"
    and obj: "list_all isObjectLike (originalData table)"
  shows "\<exists>keys newRows.
           rebuildTableWithNewColumns st tableName newColumns =
             Inr (st\<lparr>tableRegistry :=
                       AList.update tableName
                         \<lparr>columns = newColumns, rows = newRows, originalData = originalData table\<rparr>
                         (tableRegistry st),
                     objectToIndexMap :=
                       AList.update tableName (length (mapObjects st)) (objectToIndexMap st),
                     mapObjects := mapObjects st @ [indexKeys keys 0 []]\<rparr>) \<and>
           length keys = length (originalData table) \<and>
           length newRows = length (originalData table) \<and>
           (\<forall>i < length (originalData table).
              rebuildRow
                (st\<lparr>tableRegistry :=
                      AList.update tableName (table\<lparr>columns := newColumns\<rparr>) (tableRegistry st)\<rparr>)
                newColumns (originalData table ! i) = Inr (keys ! i, newRows ! i))"
proof -
  let ?st1 = "st\<lparr>tableRegistry :=
                   AList.update tableName (table\<lparr>columns := newColumns\<rparr>) (tableRegistry st)\<rparr>"
  obtain keys newRows where
    r: "rebuildRows ?st1 newColumns (originalData table) 0 [] = Inr (newRows, indexKeys keys 0 [])"
    and l: "length keys = length (originalData table)" "length newRows = length (originalData table)"
    and e: "\<forall>i < length (originalData table).
              rebuildRow ?st1 newColumns (originalData table ! i) = Inr (keys ! i, newRows ! i)"
    using rebuildRows_spec [OF obj, of ?st1 newColumns 0 "[]"] by blast
  have t: "AList.update tableName (table\<lparr>columns := newColumns, rows := newRows\<rparr>) al =
           AList.update tableName
             \<lparr>columns = newColumns, rows = newRows, originalData = originalData table\<rparr> al" for al
    by (cases table) simp
  have "rebuildTableWithNewColumns st tableName newColumns =
             Inr (st\<lparr>tableRegistry :=
                       AList.update tableName
                         \<lparr>columns = newColumns, rows = newRows, originalData = originalData table\<rparr>
                         (tableRegistry st),
                     objectToIndexMap :=
                       AList.update tableName (length (mapObjects st)) (objectToIndexMap st),
                     mapObjects := mapObjects st @ [indexKeys keys 0 []]\<rparr>)"
    using reg r by (simp add: rebuildTableWithNewColumns_def Let_def t)
  then show ?thesis using l e by blast
qed

lemma length_sortColumnNames: "length (sortColumnNames lc cols) = length cols"
  by (simp add: sortColumnNames_def length_arraySort)

lemma set_sortColumnNames: "set (sortColumnNames lc cols) = set cols"
  by (simp add: sortColumnNames_def set_arraySort)

lemma mergedColumnNames_longer:
  "\<not> set newColumns \<subseteq> set existing \<Longrightarrow>
   length existing < length (mergedColumnNames existing newColumns)"
proof -
  assume "\<not> set newColumns \<subseteq> set existing"
  then have "filter (\<lambda>column. column \<notin> set existing) newColumns \<noteq> []"
    by (auto simp: filter_empty_conv)
  then show ?thesis by (simp add: mergedColumnNames_def)
qed

lemma mergeTableColumns_columns:
  assumes "mergeTableColumns lc st n xs = Inr st'"
    and "map_of (tableRegistry st') n = Some t'"
  shows "\<exists>t. map_of (tableRegistry st) n = Some t \<and>
             columns t' = sortColumnNames lc (mergedColumnNames (columns t) xs)"
proof (cases "map_of (tableRegistry st) n")
  case None
  then show ?thesis using assms(1) by (simp add: mergeTableColumns_def)
next
  case (Some t)
  let ?sorted = "sortColumnNames lc (mergedColumnNames (columns t) xs)"
  show ?thesis
  proof (cases "hasColumnsChanged (columns t) ?sorted")
    case False
    then have "st' = st" "columns t = ?sorted"
      using assms(1) Some by (simp_all add: mergeTableColumns_def Let_def hasColumnsChanged_iff)
    then show ?thesis using Some assms(2) by simp
  next
    case True
    then have "rebuildTableWithNewColumns st n ?sorted = Inr st'"
      using assms(1) Some by (simp add: mergeTableColumns_def Let_def)
    then have "columns t' = ?sorted"
      using Some assms(2)
      by (auto simp: rebuildTableWithNewColumns_def Let_def update_conv' split: sum.splits)
    then show ?thesis using Some by simp
  qed
qed

lemma mergedColumnNames_superset: "set xs \<subseteq> set (mergedColumnNames existing xs)"
  by (auto simp: mergedColumnNames_def)

lemma traversal_invariant:
  assumes cache: "\<And>st k r. I st \<Longrightarrow>
      I (st\<lparr>arrayReferenceCache := AList.update k r (arrayReferenceCache st)\<rparr>)"
    and create: "\<And>st name xs. I st \<Longrightarrow> map_of (tableRegistry st) name = None \<Longrightarrow>
      I (createNewTable st name (sortColumnNames lc0 xs))"
    and merge: "\<And>st name xs st'. I st \<Longrightarrow> mergeTableColumns lc0 st name xs = Inr st' \<Longrightarrow> I st'"
    and add: "\<And>st name item nr cols k st' i. I st \<Longrightarrow> isObjectLike item \<Longrightarrow>
      addRowToTable st name item nr cols k = Inr (st', i) \<Longrightarrow> I st'"
  shows
    "lc = lc0 \<longrightarrow> I st \<longrightarrow> (\<forall>st'. processValue lc st v ctx = Inr st' \<longrightarrow> I st')"
    "lc = lc0 \<longrightarrow> I st \<longrightarrow> (\<forall>st'. processArrayValue lc st array ctx cacheKey = Inr st' \<longrightarrow> I st')"
    "lc = lc0 \<longrightarrow> I st \<longrightarrow> cols \<noteq> [] \<longrightarrow>
       (\<forall>st' r. processArrayItems lc st tableName cols canonicalKeyMap items rowIndices = Inr (st', r) \<longrightarrow> I st')"
    "lc = lc0 \<longrightarrow> I st \<longrightarrow> (\<forall>st'. processNestedValues lc st item cols' = Inr st' \<longrightarrow> I st')"
    "lc = lc0 \<longrightarrow> I st \<longrightarrow> (\<forall>st'. processObjectValue lc st object ctx = Inr st' \<longrightarrow> I st')"
proof (induction lc st v ctx and lc st array ctx cacheKey
         and lc st tableName cols canonicalKeyMap items rowIndices
         and lc st item cols' and lc st object ctx
       rule: processValue_processArrayValue_processArrayItems_processNestedValues_processObjectValue.induct)
  case (1 lc st v ctx)
  show ?case
  proof (intro impI allI)
    fix st' assume lc: "lc = lc0" and i: "I st" and run: "processValue lc st v ctx = Inr st'"
    show "I st'"
    proof (cases "isObjectLike v \<and> map_of (arrayReferenceCache st) (stringify v) = None")
      case False
      then have "st' = st"
        using run by (auto simp: processValue.simps Let_def split: if_splits)
      then show ?thesis using i by simp
    next
      case True
      show ?thesis
      proof (cases v)
        case (JArr xs)
        then have "processArrayValue lc st xs ctx (stringify v) = Inr st'"
          using run True by (simp add: processValue.simps Let_def del: stringify.simps)
        then show ?thesis
          using 1(1) [OF _ refl _ JArr] True lc i by simp
      next
        case (JObj kvs)
        then have "processObjectValue lc st kvs ctx = Inr st'"
          using run True by (simp add: processValue.simps Let_def del: stringify.simps)
        then show ?thesis
          using 1(2) [OF _ refl _ JObj] True lc i by simp
      qed (use True in \<open>simp_all add: isObjectLike_def\<close>)
    qed
  qed
next
  case (2 lc st array ctx cacheKey)
  show ?case
  proof (intro impI allI)
    fix st' assume lc: "lc = lc0" and i: "I st"
      and run: "processArrayValue lc st array ctx cacheKey = Inr st'"
    show "I st'"
    proof (cases array)
      case Nil
      then show ?thesis using run i cache by (auto simp: processArrayValue.simps)
    next
      case (Cons firstElement others)
      let ?name = "resolveTableName st ctx"
      let ?xa = "extractColumnNames lc array"
      show ?thesis
      proof (cases "(case firstElement of JObj kvs \<Rightarrow> True | _ \<Rightarrow> False) \<and> ?xa \<noteq> []")
        case False
        then consider
          (prim) "\<not> (case firstElement of JObj kvs \<Rightarrow> True | _ \<Rightarrow> False)"
          | (empty) "(case firstElement of JObj kvs \<Rightarrow> True | _ \<Rightarrow> False)" "?xa = []"
          by blast
        then obtain r where "st' = st\<lparr>arrayReferenceCache := AList.update cacheKey r (arrayReferenceCache st)\<rparr>"
        proof cases
          case prim
          then show ?thesis
            using that run Cons by (auto simp: processArrayValue.simps split: sum.splits)
        next
          case empty
          then show ?thesis
            using that run Cons by (auto simp: processArrayValue.simps Let_def split: sum.splits)
        qed
        then show ?thesis using cache [OF i] by simp
      next
        case True
        let ?start = "if map_of (tableRegistry st) ?name = None
                      then Inr (createNewTable st ?name ?xa)
                      else mergeTableColumns lc st ?name ?xa"
        from run True Cons obtain st1 table a st2 rowIndices where
          start: "?start = Inr st1"
          and t: "map_of (tableRegistry st1) ?name = Some table"
          and a: "map_of (objectToIndexMap st1) ?name = Some a"
          and items: "processArrayItems lc st1 ?name (columns table) a array [] = Inr (st2, rowIndices)"
          and st': "st' = st2\<lparr>arrayReferenceCache :=
                             AList.update cacheKey (rowsReference ?name rowIndices)
                               (arrayReferenceCache st2)\<rparr>"
          by (auto simp: processArrayValue.simps Let_def split: sum.splits option.splits)
        have i1: "I st1"
        proof (cases "map_of (tableRegistry st) ?name = None")
          case True
          then have "st1 = createNewTable st ?name ?xa" using start by simp
          then show ?thesis
            using create [OF i True] lc by (simp add: extractColumnNames_def)
        next
          case False
          then have "mergeTableColumns lc st ?name ?xa = Inr st1"
            using start by (auto split: if_splits)
          then show ?thesis using merge i lc by simp
        qed
        have ne: "columns table \<noteq> []"
        proof (cases "map_of (tableRegistry st) ?name = None")
          case True
          then have "st1 = createNewTable st ?name ?xa" using start by simp
          then have "columns table = ?xa"
            using t by (auto simp: createNewTable_def update_conv')
          then show ?thesis using \<open>_ \<and> ?xa \<noteq> []\<close> by simp
        next
          case False
          then have "mergeTableColumns lc st ?name ?xa = Inr st1"
            using start by (auto split: if_splits)
          from mergeTableColumns_columns [OF this t] obtain t0 :: TableData where
            "columns table = sortColumnNames lc (mergedColumnNames (columns t0) ?xa)" by blast
          then have "set ?xa \<subseteq> set (columns table)"
            using mergedColumnNames_superset by (simp add: set_sortColumnNames)
          then show ?thesis using \<open>_ \<and> ?xa \<noteq> []\<close> by auto
        qed
        have "I st2"
          using 2 [OF Cons _ refl refl _ start t a] True lc i1 ne items by simp
        then show ?thesis unfolding st' by (rule cache)
      qed
    qed
  qed
next
  case (3 lc st tableName cols canonicalKeyMap rowIndices)
  show ?case by simp
next
  case (4 lc st tableName cols canonicalKeyMap item items rowIndices)
  show ?case
  proof (intro impI allI)
    fix st' r assume lc: "lc = lc0" and i: "I st" and ne: "cols \<noteq> []"
      and run: "processArrayItems lc st tableName cols canonicalKeyMap (item # items) rowIndices = Inr (st', r)"
    from run obtain st1 nr where
      nested: "processNestedValues lc st item cols = Inr st1"
      and nr: "applyDefaultsToRow (defaultValues st1) item cols = Inr nr"
      by (auto split: sum.splits)
    have i1: "I st1" using 4(1) lc i nested by simp
    have obj: "isObjectLike item" using nr ne by (rule applyDefaultsToRow_objectLike)
    let ?key = "generateCanonicalKey (defaultValues st1) nr cols"
    show "I st'"
    proof (cases "map_of (mapObject st1 canonicalKeyMap) ?key")
      case (Some rowIndex)
      then have "processArrayItems lc st1 tableName cols canonicalKeyMap items (rowIndices @ [rowIndex]) = Inr (st', r)"
        using run nested nr by (simp add: Let_def)
      then show ?thesis
        using 4(3) [OF nested nr refl Some] lc i1 ne by simp
    next
      case None
      then obtain st2 rowIndex where
        added: "addRowToTable st1 tableName item nr cols ?key = Inr (st2, rowIndex)"
        and rest: "processArrayItems lc st2 tableName cols canonicalKeyMap items (rowIndices @ [rowIndex]) = Inr (st', r)"
        using run nested nr by (auto simp: Let_def split: sum.splits)
      have "I st2" using add [OF i1 obj added] .
      then show ?thesis
        using 4(2) [OF nested nr refl None added refl] lc ne rest by simp
    qed
  qed
next
  case (5 lc st item)
  show ?case by simp
next
  case (6 lc st item columnName rest)
  show ?case
  proof (intro impI allI)
    fix st' assume lc: "lc = lc0" and i: "I st"
      and run: "processNestedValues lc st item (columnName # rest) = Inr st'"
    from run obtain b where g: "getProperty item columnName = Inr b"
      by (auto split: sum.splits)
    show "I st'"
    proof (cases b)
      case None
      then show ?thesis using 6(1) [OF g None] run g lc i by simp
    next
      case (Some nv)
      show ?thesis
      proof (cases "isObjectLike nv")
        case False
        then show ?thesis using 6(4) [OF g Some False] run g Some lc i by simp
      next
        case True
        then obtain st1 where p: "processValue lc st nv columnName = Inr st1"
          and r: "processNestedValues lc st1 item rest = Inr st'"
          using run g Some by (auto split: sum.splits)
        have "I st1" using 6(2) [OF g Some True] lc i p by simp
        then show ?thesis using 6(3) [OF g Some True p] lc r by simp
      qed
    qed
  qed
next
  case (7 lc st object ctx)
  show ?case
  proof (intro impI allI)
    fix st' assume lc: "lc = lc0" and i: "I st"
      and run: "processObjectValue lc st object ctx = Inr st'"
    let ?name = "resolveTableName st ctx"
    let ?xa = "sortColumnNames lc (map fst object)"
    let ?start = "if map_of (tableRegistry st) ?name = None
                  then Inr (createNewTable st ?name ?xa)
                  else mergeTableColumns lc st ?name ?xa"
    from run obtain st1 table a st2 nr where
      start: "?start = Inr st1"
      and t: "map_of (tableRegistry st1) ?name = Some table"
      and a: "map_of (objectToIndexMap st1) ?name = Some a"
      and nested: "processNestedValues lc st1 (JObj object) (columns table) = Inr st2"
      and nr: "applyDefaultsToRow (defaultValues st2) (JObj object) (columns table) = Inr nr"
      by (auto simp: processObjectValue.simps Let_def split: sum.splits option.splits)
    have i1: "I st1"
    proof (cases "map_of (tableRegistry st) ?name = None")
      case True
      then have "st1 = createNewTable st ?name ?xa" using start by simp
      then show ?thesis using create [OF i True] lc by simp
    next
      case False
      then have "mergeTableColumns lc st ?name ?xa = Inr st1"
            using start by (auto split: if_splits)
      then show ?thesis using merge i lc by simp
    qed
    have i2: "I st2" using 7 [OF refl refl start t a] lc i1 nested by simp
    let ?key = "generateCanonicalKey (defaultValues st2) nr (columns table)"
    show "I st'"
    proof (cases "map_of (mapObject st2 a) ?key = None")
      case False
      then have "st' = st2"
        using run start t a nested nr
        by (auto simp: processObjectValue.simps Let_def split: sum.splits option.splits)
      then show ?thesis using i2 by simp
    next
      case True
      then obtain rowIndex where
        "addRowToTable st2 ?name (JObj object) nr (columns table) ?key = Inr (st', rowIndex)"
        using run start t a nested nr
        by (auto simp: processObjectValue.simps Let_def split: sum.splits option.splits)
      moreover have "isObjectLike (JObj object)" by (simp add: isObjectLike_def)
      ultimately show ?thesis using add [OF i2] by blast
    qed
  qed
qed

text \<open>
  Two invariants of the traversal: every table holds one stored record per row, and every
  table's column list is a result of the column ordering.
\<close>

lemma mergeTableColumns_cases:
  assumes "mergeTableColumns lc st n xs = Inr st'"
  obtains (same) "st' = st"
  | (rebuilt) t newRows m where
      "map_of (tableRegistry st) n = Some t"
      "rebuildRows (st\<lparr>tableRegistry := AList.update n
                        (t\<lparr>columns := sortColumnNames lc (mergedColumnNames (columns t) xs)\<rparr>)
                        (tableRegistry st)\<rparr>)
         (sortColumnNames lc (mergedColumnNames (columns t) xs)) (originalData t) 0 [] = Inr (newRows, m)"
      "st' = st\<lparr>tableRegistry :=
                   AList.update n
                     (t\<lparr>columns := sortColumnNames lc (mergedColumnNames (columns t) xs),
                        rows := newRows\<rparr>) (tableRegistry st),
                 objectToIndexMap := AList.update n (length (mapObjects st)) (objectToIndexMap st),
                 mapObjects := mapObjects st @ [m]\<rparr>"
proof (cases "map_of (tableRegistry st) n")
  case None
  then show ?thesis using assms by (simp add: mergeTableColumns_def)
next
  case (Some t)
  let ?sorted = "sortColumnNames lc (mergedColumnNames (columns t) xs)"
  show ?thesis
  proof (cases "hasColumnsChanged (columns t) ?sorted")
    case False
    then have "st' = st" using assms Some by (simp add: mergeTableColumns_def Let_def)
    then show ?thesis by (rule same)
  next
    case True
    then have "rebuildTableWithNewColumns st n ?sorted = Inr st'"
      using assms Some by (simp add: mergeTableColumns_def Let_def)
    then show ?thesis
      using Some rebuilt [of t]
      by (auto simp: rebuildTableWithNewColumns_def Let_def split: sum.splits)
  qed
qed

lemma rebuildRows_length:
  "rebuildRows st cols items index m = Inr (newRows, m') \<Longrightarrow> length newRows = length items"
  by (induction items arbitrary: index m newRows) (auto split: sum.splits)

lemma tablesParallel_merge:
  assumes "tablesParallel st" and "mergeTableColumns lc st n xs = Inr st'"
  shows "tablesParallel st'"
  using assms(2)
proof (cases rule: mergeTableColumns_cases)
  case same
  then show ?thesis using assms(1) by simp
next
  case (rebuilt t newRows m)
  have "length newRows = length (originalData t)"
    using rebuilt(2) by (rule rebuildRows_length)
  moreover have "list_all isObjectLike (originalData t)"
    using assms(1) rebuilt(1) by (simp add: tablesParallel_def)
  ultimately show ?thesis
    using assms(1) unfolding rebuilt(3) tablesParallel_def
    by (auto simp: update_conv')
qed

lemma addRowToTable_cases:
  assumes "addRowToTable st n item nr cols k = Inr (st', i)"
  obtains row t a where
    "renderRow st nr cols = Inr row"
    "map_of (tableRegistry st) n = Some t"
    "map_of (objectToIndexMap st) n = Some a"
    "i = length (rows t)"
    "st' = st\<lparr>tableRegistry :=
                 AList.update n (t\<lparr>rows := rows t @ [row], originalData := originalData t @ [item]\<rparr>)
                   (tableRegistry st),
               mapObjects := (mapObjects st)[a := AList.update k (length (rows t)) (mapObject st a)],
               tableIndexCounters := AList.update n (length (rows t) + 1) (tableIndexCounters st)\<rparr>"
  using assms
  by (auto simp: addRowToTable_def Let_def split: sum.splits option.splits)

lemma tablesParallel_add:
  assumes "tablesParallel st" and "isObjectLike item"
    and "addRowToTable st n item nr cols k = Inr (st', i)"
  shows "tablesParallel st'"
  using assms(3)
proof (cases rule: addRowToTable_cases)
  case (1 row t a)
  show ?thesis
    using assms(1,2) 1(2) unfolding 1(5) tablesParallel_def
    by (auto simp: update_conv')
qed

lemma tablesParallel_traversal:
  assumes "tablesParallel st" and "processValue lc st v ctx = Inr st'"
  shows "tablesParallel st'"
proof -
  have "lc = lc \<longrightarrow> tablesParallel st \<longrightarrow>
          (\<forall>st'. processValue lc st v ctx = Inr st' \<longrightarrow> tablesParallel st')"
  proof (rule traversal_invariant(1) [where I = tablesParallel and ?lc0.0 = lc])
    show "tablesParallel (st\<lparr>arrayReferenceCache := AList.update k r (arrayReferenceCache st)\<rparr>)"
      if "tablesParallel st" for st k r
      using that by (simp add: tablesParallel_def)
    show "tablesParallel (createNewTable st name (sortColumnNames lc xs))"
      if "tablesParallel st" for st name xs
      using that by (auto simp: tablesParallel_def createNewTable_def update_conv')
    show "tablesParallel st'"
      if "tablesParallel st" "mergeTableColumns lc st name xs = Inr st'" for st name xs st'
      using that by (rule tablesParallel_merge)
    show "tablesParallel st'"
      if "tablesParallel st" "isObjectLike item" "addRowToTable st name item nr cols k = Inr (st', i)"
      for st name item nr cols k st' i
      using that by (rule tablesParallel_add)
  qed
  then show ?thesis using assms by blast
qed

lemma columnsSorted_traversal:
  assumes "columnsSorted lc st" and "processValue lc st v ctx = Inr st'"
  shows "columnsSorted lc st'"
proof -
  have "lc = lc \<longrightarrow> columnsSorted lc st \<longrightarrow>
          (\<forall>st'. processValue lc st v ctx = Inr st' \<longrightarrow> columnsSorted lc st')"
  proof (rule traversal_invariant(1) [where I = "columnsSorted lc" and ?lc0.0 = lc])
    show "columnsSorted lc (st\<lparr>arrayReferenceCache := AList.update k r (arrayReferenceCache st)\<rparr>)"
      if "columnsSorted lc st" for st k r
      using that by (simp add: columnsSorted_def)
    show "columnsSorted lc (createNewTable st name (sortColumnNames lc xs))"
      if "columnsSorted lc st" for st name xs
      using that by (auto simp: columnsSorted_def createNewTable_def update_conv')
    show "columnsSorted lc st'"
      if c: "columnsSorted lc st" and m: "mergeTableColumns lc st name xs = Inr st'" for st name xs st'
      using m
    proof (cases rule: mergeTableColumns_cases)
      case same
      then show ?thesis using c by simp
    next
      case (rebuilt t newRows m)
      show ?thesis
        using c unfolding rebuilt(3) columnsSorted_def
        by (auto simp: update_conv')
    qed
    show "columnsSorted lc st'"
      if c: "columnsSorted lc st" and "isObjectLike item"
        and a: "addRowToTable st name item nr cols k = Inr (st', i)"
      for st name item nr cols k st' i
      using a
    proof (cases rule: addRowToTable_cases)
      case (1 row t a)
      show ?thesis
        using c 1(2) unfolding 1(5) columnsSorted_def
        by (auto simp: update_conv')
    qed
  qed
  then show ?thesis using assms by blast
qed

lemma compareColumns_total:
  assumes "\<And>a b. lc a b \<le> 0 \<or> lc b a \<le> 0"
  shows "compareColumns lc a b \<le> 0 \<or> compareColumns lc b a \<le> 0"
  using assms [of a b] by (auto simp: compareColumns_cases)

lemma compareColumns_trans:
  assumes "\<And>a b c. lc a b \<le> 0 \<Longrightarrow> lc b c \<le> 0 \<Longrightarrow> lc a c \<le> 0"
    and "compareColumns lc a b \<le> 0" and "compareColumns lc b c \<le> 0"
  shows "compareColumns lc a c \<le> 0"
  using assms(1) [of a b c] assms(2,3)
  by (auto simp: compareColumns_cases split: if_splits)

lemma sortColumnNames_idem:
  assumes total: "\<And>a b. lc a b \<le> 0 \<or> lc b a \<le> 0"
    and trans: "\<And>a b c. lc a b \<le> 0 \<Longrightarrow> lc b c \<le> 0 \<Longrightarrow> lc a c \<le> 0"
  shows "sortColumnNames lc (sortColumnNames lc cs) = sortColumnNames lc cs"
proof -
  have "sorted_wrt (\<lambda>a b. compareColumns lc a b \<le> 0) (arraySort (compareColumns lc) cs)"
  proof (rule sorted_arraySort [where S = UNIV])
    show "compareColumns lc a b \<le> 0 \<or> compareColumns lc b a \<le> 0" for a b
      by (rule compareColumns_total [OF total])
    show "compareColumns lc a c \<le> 0"
      if "compareColumns lc a b \<le> 0" "compareColumns lc b c \<le> 0" for a b c
      using trans that by (rule compareColumns_trans)
  qed simp
  then show ?thesis
    unfolding sortColumnNames_def by (rule arraySort_sorted_id)
qed

text \<open>The sample collation is a total preorder; a fresh engine has the two invariants.\<close>

lemma codeUnitCompare_total: "codeUnitCompare a b \<le> 0 \<or> codeUnitCompare b a \<le> 0"
  by (induction a b rule: codeUnitCompare.induct) auto

lemma codeUnitCompare_range: "codeUnitCompare a b \<in> {- 1, 0, 1}"
  by (induction a b rule: codeUnitCompare.induct) auto

lemma codeUnitCompare_trans:
  "codeUnitCompare a b \<le> 0 \<Longrightarrow> codeUnitCompare b c \<le> 0 \<Longrightarrow> codeUnitCompare a c \<le> 0"
proof (induction a arbitrary: b c)
  case Nil
  then show ?case by (cases c) auto
next
  case (Cons x xs)
  then obtain y ys where b: "b = y # ys" by (cases b) auto
  with Cons.prems obtain z zs where c: "c = z # zs" by (cases c) auto
  show ?case
    using Cons.prems Cons.IH [of ys zs] unfolding b c
    by (auto split: if_splits)
qed

lemma columnsSorted_initialize: "columnsSorted lc (initialize dv ts)"
  by (simp add: columnsSorted_def initialize_def)

lemma tablesParallel_initialize: "tablesParallel (initialize dv ts)"
  by (simp add: tablesParallel_def initialize_def)
section \<open>Traversal of records and arrays of records\<close>

text \<open>The column names that the elements of an array contribute.\<close>

lemma foldl_setAdd_Nil: "foldl (\<lambda>s k. setAdd k s) acc [] = acc"
  by simp













section \<open>Canonicalizer: default substitution\<close>

lemma orDefault_absent:
  "c \<notin> fst ` set kvs \<Longrightarrow> orDefault dv None c = orDefault dv (map_of kvs c) c"
  using map_of_eq_None_iff [of kvs c] by simp

lemma applyDefaultsLoop_JObj:
  "\<exists>row. applyDefaultsLoop dv (JObj kvs) acc cols = Inr row \<and>
         map_of row = (\<lambda>c. if c \<in> set cols then Some (orDefault dv (map_of kvs c) c) else map_of acc c)"
proof (induction cols arbitrary: acc)
  case Nil
  show ?case by simp
next
  case (Cons c cs)
  let ?acc = "AList.update c (orDefault dv (map_of kvs c) c) acc"
  from Cons.IH [of ?acc] obtain row where
    row: "applyDefaultsLoop dv (JObj kvs) ?acc cs = Inr row"
    and m: "map_of row = (\<lambda>k. if k \<in> set cs then Some (orDefault dv (map_of kvs k) k) else map_of ?acc k)"
    by blast
  have step: "applyDefaultsLoop dv (JObj kvs) acc (c # cs) = applyDefaultsLoop dv (JObj kvs) ?acc cs"
    by (simp add: hasProperty_JObj getProperty_JObj orDefault_absent)
  show ?case
    unfolding step using row m by (auto simp: update_conv' fun_eq_iff)
qed

text \<open>
  Claim C1, as the code has it. For every record, defaults and list of columns none of
  which is the name of a member of \<^verbatim>\<open>Object.prototype\<close> (these are found by \<^verbatim>\<open>in\<close> and
  by the lookups in every record and in the defaults), normalization succeeds and yields
  exactly the given columns; each column holds the value of the record when the key is
  present with a value other than null, otherwise the configured default of the column,
  otherwise null. A key that is present with the value null is treated like an absent key.
\<close>

theorem applyDefaultsToRow_values:
  assumes own: "\<forall>c \<in> set cols. c \<notin> set objectPrototypeKeys"
  shows "\<exists>row. applyDefaultsToRow dv (JObj kvs) cols = Inr row \<and>
         fst ` set row = set cols \<and>
         (\<forall>c \<in> set cols.
            map_of row c =
              Some (case map_of kvs c of
                      Some v \<Rightarrow> if v \<noteq> JNull then v
                                else (case map_of dv c of Some d \<Rightarrow> d | None \<Rightarrow> JNull)
                    | None \<Rightarrow> (case map_of dv c of Some d \<Rightarrow> d | None \<Rightarrow> JNull)))"
proof -
  from applyDefaultsLoop_JObj [of dv kvs "[]" cols] obtain row where
    row: "applyDefaultsToRow dv (JObj kvs) cols = Inr row"
    and m0: "map_of row = (\<lambda>c. if c \<in> set cols then Some (orDefault dv (map_of kvs c) c) else map_of [] c)"
    unfolding applyDefaultsToRow_def by blast
  have m: "map_of row = (\<lambda>c. if c \<in> set cols then Some (orDefault dv (map_of kvs c) c) else None)"
    using m0 by (simp add: fun_eq_iff)
  have "dom (map_of row) = set cols"
    unfolding m by (auto split: if_splits)
  then have d: "fst ` set row = set cols"
    by (simp add: dom_map_of_conv_image_fst)
  have "\<forall>c \<in> set cols. map_of row c = Some (orDefault dv (map_of kvs c) c)"
    by (simp add: m)
  then show ?thesis
    using row d by (auto simp: orDefault_def split: option.splits)
qed

text \<open>
  The theorem at the defaults \<^verbatim>\<open>{status: "active"}\<close>, the record \<^verbatim>\<open>{id: 1, note: null}\<close>
  and the columns id, note, status.
\<close>

theorem applyDefaultsToRow_values_witness:
  "(\<exists>row. applyDefaultsToRow [(''status'', JStr ''active'')] (JObj [(''id'', JNum 1), (''note'', JNull)])
            [''id'', ''note'', ''status''] = Inr row \<and>
         map_of row ''id'' = Some (JNum 1) \<and>
         map_of row ''note'' = Some JNull \<and>
         map_of row ''status'' = Some (JStr ''active'')) \<and>
   list_all (\<lambda>c. c \<notin> set objectPrototypeKeys) [''id'', ''note'', ''status'']"
proof -
  have own: "\<forall>c \<in> set [''id'', ''note'', ''status'']. c \<notin> set objectPrototypeKeys"
    by (simp add: objectPrototypeKeys_def)
  have "\<exists>row. applyDefaultsToRow [(''status'', JStr ''active'')] (JObj [(''id'', JNum 1), (''note'', JNull)])
            [''id'', ''note'', ''status''] = Inr row \<and>
         map_of row ''id'' = Some (JNum 1) \<and>
         map_of row ''note'' = Some JNull \<and>
         map_of row ''status'' = Some (JStr ''active'')"
    using applyDefaultsToRow_values [OF own,
      of "[(''status'', JStr ''active'')]" "[(''id'', JNum 1), (''note'', JNull)]"]
    by auto
  moreover have "list_all (\<lambda>c. c \<notin> set objectPrototypeKeys) [''id'', ''note'', ''status'']"
    by (simp add: objectPrototypeKeys_def)
  ultimately show ?thesis by (rule conjI)
qed

text \<open>
  Claim C1 as stated fails: with the default \<^verbatim>\<open>{status: "active"}\<close>, the record
  \<^verbatim>\<open>{id: 1, status: null}\<close> has the key status, and its normalized value is the default,
  not null.
\<close>

theorem applyDefaultsToRow_null_takes_default:
  "applyDefaultsToRow [(''status'', JStr ''active'')] (JObj [(''id'', JNum 1), (''status'', JNull)])
     [''id'', ''status''] = Inr [(''id'', JNum 1), (''status'', JStr ''active'')]"
  by (simp add: applyDefaultsToRow_def hasProperty_def getProperty_def orDefault_def)

section \<open>Reference compaction\<close>

lemma arraySort_numeric:
  "(arraySort (\<lambda>a b. int a - int b) xs = [0..<n]) = (distinct xs \<and> set xs = {0..<n})"
proof -
  let ?ys = "arraySort (\<lambda>a b. int a - int b) xs"
  have "sorted_wrt (\<lambda>a b. int a - int b \<le> 0) ?ys"
    by (rule sorted_arraySort [where S = UNIV]) auto
  then have s: "sorted ?ys" by (simp add: sortedIndices)
  show ?thesis
  proof
    assume "?ys = [0..<n]"
    then have "distinct ?ys" "set ?ys = {0..<n}" by simp_all
    then show "distinct xs \<and> set xs = {0..<n}"
      by (simp add: distinct_arraySort set_arraySort)
  next
    assume "distinct xs \<and> set xs = {0..<n}"
    then have "distinct ?ys" "set ?ys = set [0..<n]"
      by (simp_all add: distinct_arraySort set_arraySort)
    then show "?ys = [0..<n]"
      using s by (intro sorted_distinct_set_unique) simp_all
  qed
qed

lemma compactReference_rowsReference:
  assumes "w \<noteq> []" and "list_all isWordChar w" and "indices \<noteq> []"
    and "map_of registry (CHR ''@'' # w) = Some table"
  shows "compactReference registry (rowsReference (CHR ''@'' # w) indices) =
           (if distinct indices \<and> set indices = {0..<length (rows table)} then CHR ''@'' # w
            else rowsReference (CHR ''@'' # w) indices)"
  unfolding compactReference_def matchRowsReference_rowsReference [OF assms(1-3)]
  by (simp only: option.case prod.case Let_def assms(4) indexText_split [OF assms(3)]
        isSequential_iff arraySort_numeric)

lemma rowsReference_not_bare: "rowsReference tableName indices \<noteq> tableName"
  by (simp add: rowsReference_def)

lemma map_of_compactArrayReferences:
  "map_of (arrayReferenceCache (compactArrayReferences st)) k =
     map_option (compactReference (tableRegistry st)) (map_of (arrayReferenceCache st) k)"
  by (simp add: compactArrayReferences_def map_of_map)

lemma map_of_optimizeTableReferences:
  "map_of (tableRegistry (optimizeTableReferences st)) n =
     map_option (\<lambda>table. table\<lparr>rows := map (map (optimizeCell (tableRegistry st))) (rows table)\<rparr>)
       (map_of (tableRegistry st) n)"
  by (simp add: optimizeTableReferences_def map_of_map)

lemma optimizeCell_rowsReference:
  "optimizeCell registry (rowsReference (CHR ''@'' # w) indices) =
     compactReference registry (rowsReference (CHR ''@'' # w) indices)"
  by (simp add: optimizeCell_def startsWithAt_def rowsReference_def)

text \<open>
  Claim C2, as the code has it. Take a reference \<^verbatim>\<open>Rows(table, indices)\<close> as the traversal
  writes it, with a non-empty index list and a registered table whose name is \<^verbatim>\<open>@\<close>
  followed by word characters. Compaction rewrites it to the bare table name if and only
  if the index list holds every row index of the table exactly once, in any order (the
  indices are sorted before they are compared); otherwise the reference keeps its explicit
  indices. This is what happens to such a reference in the reference cache and in every
  cell of every stored row.
\<close>

theorem compactReference_whole_table:
  assumes "w \<noteq> []" and "list_all isWordChar w" and "indices \<noteq> []"
    and "map_of (tableRegistry st) (CHR ''@'' # w) = Some table"
  shows "compactReference (tableRegistry st) (rowsReference (CHR ''@'' # w) indices) =
           (if distinct indices \<and> set indices = {0..<length (rows table)} then CHR ''@'' # w
            else rowsReference (CHR ''@'' # w) indices) \<and>
         rowsReference (CHR ''@'' # w) indices \<noteq> CHR ''@'' # w \<and>
         (\<forall>k. map_of (arrayReferenceCache st) k = Some (rowsReference (CHR ''@'' # w) indices) \<longrightarrow>
              map_of (arrayReferenceCache (compactArrayReferences st)) k =
                Some (compactReference (tableRegistry st) (rowsReference (CHR ''@'' # w) indices))) \<and>
         (\<forall>n t. map_of (tableRegistry st) n = Some t \<longrightarrow>
              (\<exists>t'. map_of (tableRegistry (optimizeTableReferences st)) n = Some t' \<and>
                    length (rows t') = length (rows t) \<and>
                    (\<forall>i < length (rows t). \<forall>j < length (rows t ! i).
                        rows t ! i ! j = rowsReference (CHR ''@'' # w) indices \<longrightarrow>
                        rows t' ! i ! j =
                          compactReference (tableRegistry st) (rowsReference (CHR ''@'' # w) indices))))"
proof -
  have 1: "compactReference (tableRegistry st) (rowsReference (CHR ''@'' # w) indices) =
           (if distinct indices \<and> set indices = {0..<length (rows table)} then CHR ''@'' # w
            else rowsReference (CHR ''@'' # w) indices)"
    by (rule compactReference_rowsReference [OF assms])
  have 3: "\<forall>k. map_of (arrayReferenceCache st) k = Some (rowsReference (CHR ''@'' # w) indices) \<longrightarrow>
              map_of (arrayReferenceCache (compactArrayReferences st)) k =
                Some (compactReference (tableRegistry st) (rowsReference (CHR ''@'' # w) indices))"
    by (simp add: map_of_compactArrayReferences)
  have 4: "\<forall>n t. map_of (tableRegistry st) n = Some t \<longrightarrow>
              (\<exists>t'. map_of (tableRegistry (optimizeTableReferences st)) n = Some t' \<and>
                    length (rows t') = length (rows t) \<and>
                    (\<forall>i < length (rows t). \<forall>j < length (rows t ! i).
                        rows t ! i ! j = rowsReference (CHR ''@'' # w) indices \<longrightarrow>
                        rows t' ! i ! j =
                          compactReference (tableRegistry st) (rowsReference (CHR ''@'' # w) indices)))"
    by (simp add: map_of_optimizeTableReferences optimizeCell_rowsReference)
  show ?thesis
    using 1 3 4 rowsReference_not_bare by blast
qed

text \<open>
  The theorem at a registry whose table \<^verbatim>\<open>@users\<close> has two rows and at the reference
  \<^verbatim>\<open>@users[1,0]\<close>, which is held by the cache and by the only cell of the table \<^verbatim>\<open>@b\<close>.
\<close>

theorem compactReference_whole_table_witness:
  "compactReference (tableRegistry twoUsers) (rowsReference ''@users'' [1, 0]) = ''@users'' \<and>
   map_of (arrayReferenceCache (compactArrayReferences twoUsers)) ''[{\"id\":2},{\"id\":1}]'' = Some ''@users'' \<and>
   map_of (tableRegistry (optimizeTableReferences twoUsers)) ''@b'' =
     Some \<lparr>columns = [''users''], rows = [[''@users'']],
           originalData = [JObj [(''users'', JArr [JObj [(''id'', JNum 2)], JObj [(''id'', JNum 1)]])]]\<rparr>"
proof -
  have w: "''users'' \<noteq> []" "list_all isWordChar ''users''" "[1, 0 :: nat] \<noteq> []"
    by (simp_all add: isWordChar_def)
  have t: "map_of (tableRegistry twoUsers) (CHR ''@'' # ''users'') =
             Some \<lparr>columns = [''id''], rows = [[''1''], [''2'']],
                   originalData = [JObj [(''id'', JNum 1)], JObj [(''id'', JNum 2)]]\<rparr>"
    by (simp add: twoUsers_def)
  let ?T = "\<lparr>columns = [''id''], rows = [[''1''], [''2'']],
                   originalData = [JObj [(''id'', JNum 1)], JObj [(''id'', JNum 2)]]\<rparr>"
  have c: "distinct [1, 0 :: nat] \<and> set [1, 0 :: nat] = {0..<length (rows ?T)}"
    by auto
  have "compactReference (tableRegistry twoUsers) (rowsReference (CHR ''@'' # ''users'') [1, 0]) =
          (if distinct [1, 0 :: nat] \<and> set [1, 0 :: nat] = {0..<length (rows ?T)}
           then CHR ''@'' # ''users'' else rowsReference (CHR ''@'' # ''users'') [1, 0])"
    by (rule conjunct1 [OF compactReference_whole_table [OF w t]])
  then have "compactReference (tableRegistry twoUsers) (rowsReference (CHR ''@'' # ''users'') [1, 0]) = CHR ''@'' # ''users''"
    by (simp only: if_P [OF c])
  then have 1: "compactReference (tableRegistry twoUsers) (rowsReference ''@users'' [1, 0]) = ''@users''"
    by simp
  have r: "rowsReference ''@users'' [1, 0] = ''@users[1,0]''"
    by code_simp
  have 2: "map_of (arrayReferenceCache (compactArrayReferences twoUsers)) ''[{\"id\":2},{\"id\":1}]'' = Some ''@users''"
    using 1 unfolding r by (simp add: map_of_compactArrayReferences twoUsers_def)
  have 3: "map_of (tableRegistry (optimizeTableReferences twoUsers)) ''@b'' =
     Some \<lparr>columns = [''users''], rows = [[''@users'']],
           originalData = [JObj [(''users'', JArr [JObj [(''id'', JNum 2)], JObj [(''id'', JNum 1)]])]]\<rparr>"
    using 1 unfolding r
    by (simp add: map_of_optimizeTableReferences optimizeCell_def startsWithAt_def twoUsers_def)
  show ?thesis using 1 2 3 by blast
qed

text \<open>
  Claim C2 as stated fails: in \<^verbatim>\<open>{"a":{"users":[{"id":1},{"id":2}]},
  "b":{"users":[{"id":2},{"id":1}]}}\<close> the second array lists the two rows in the order
  1, 0, and yet its reference is compacted to the bare table name.
\<close>

theorem compactArrayReferences_reordered:
  "\<not> isl (processValue codeUnitCompare (initialize [] []) reorderedInput ''root'') \<and>
   map_of (arrayReferenceCache (projr (processValue codeUnitCompare (initialize [] []) reorderedInput ''root'')))
     (stringify (JArr [JObj [(''id'', JNum 2)], JObj [(''id'', JNum 1)]])) = Some (rowsReference ''@users'' [1, 0]) \<and>
   map_of (arrayReferenceCache (compactArrayReferences (projr (processValue codeUnitCompare (initialize [] []) reorderedInput ''root''))))
     (stringify (JArr [JObj [(''id'', JNum 2)], JObj [(''id'', JNum 1)]])) = Some ''@users'' \<and>
   parse codeUnitCompare reorderedInput [] [] =
     Inr (''@users{id}:'' @ [CHR 0x0A] @ ''  1'' @ [CHR 0x0A] @ ''  2'' @ [CHR 0x0A, CHR 0x0A] @
          ''#a{users}: @users'' @ [CHR 0x0A] @ ''#b{users}: @users'')"
  by code_simp

section \<open>Schema merge: rows keep their positions\<close>

text \<open>
  Claim C3. For every existing table that holds one stored object-like source record per
  row, merging a list of column names into the table returns a state in which the same
  table has the same stored records in the same order and the same number of rows, every
  other table is unchanged, and the column list is the ordered union of the old and the
  new columns. When the merge introduces a previously-unseen column, row i of the rebuilt
  table is the rendering of the stored record i against the new column list, for every i,
  and the table gets a fresh dedup index computed from the new canonical keys only: every
  key of a rebuilt row is mapped to the last row that has this key, and the index has no
  other entry.
\<close>

theorem mergeTableColumns_keeps_rows:
  assumes reg: "map_of (tableRegistry st) tableName = Some table"
    and par: "length (rows table) = length (originalData table)"
    and obj: "list_all isObjectLike (originalData table)"
  shows "\<exists>st' table' index keys.
           mergeTableColumns lc st tableName newColumns = Inr st' \<and>
           map_of (tableRegistry st') tableName = Some table' \<and>
           (\<forall>other. other \<noteq> tableName \<longrightarrow>
              map_of (tableRegistry st') other = map_of (tableRegistry st) other) \<and>
           originalData table' = originalData table \<and>
           length (rows table') = length (rows table) \<and>
           columns table' = sortColumnNames lc (mergedColumnNames (columns table) newColumns) \<and>
           (\<not> set newColumns \<subseteq> set (columns table) \<longrightarrow>
              length keys = length (rows table) \<and>
              (\<forall>i < length (rows table).
                 rebuildRow
                   (st\<lparr>tableRegistry :=
                         AList.update tableName (table\<lparr>columns := columns table'\<rparr>) (tableRegistry st)\<rparr>)
                   (columns table') (originalData table ! i) = Inr (keys ! i, rows table' ! i)) \<and>
              map_of (objectToIndexMap st') tableName = Some index \<and>
              (\<forall>i < length keys. \<exists>j. i \<le> j \<and> j < length keys \<and> keys ! j = keys ! i \<and>
                  map_of (mapObject st' index) (keys ! i) = Some j) \<and>
              (\<forall>k j. map_of (mapObject st' index) k = Some j \<longrightarrow> j < length keys \<and> keys ! j = k))"
proof -
  let ?sorted = "sortColumnNames lc (mergedColumnNames (columns table) newColumns)"
  show ?thesis
  proof (cases "hasColumnsChanged (columns table) ?sorted")
    case False
    then have same: "columns table = ?sorted" by (simp add: hasColumnsChanged_iff)
    have run: "mergeTableColumns lc st tableName newColumns = Inr st"
      using reg False by (simp add: mergeTableColumns_def Let_def)
    have sub: "set newColumns \<subseteq> set (columns table)"
    proof (rule ccontr)
      assume "\<not> set newColumns \<subseteq> set (columns table)"
      then have "length (columns table) < length ?sorted"
        using mergedColumnNames_longer by (simp add: length_sortColumnNames)
      then show False using same by simp
    qed
    show ?thesis
      using run reg same sub by (intro exI [of _ st] exI [of _ table]) simp
  next
    case True
    let ?st1 = "st\<lparr>tableRegistry :=
                     AList.update tableName (table\<lparr>columns := ?sorted\<rparr>) (tableRegistry st)\<rparr>"
    obtain keys newRows where
      run: "rebuildTableWithNewColumns st tableName ?sorted =
             Inr (st\<lparr>tableRegistry :=
                       AList.update tableName
                         \<lparr>columns = ?sorted, rows = newRows, originalData = originalData table\<rparr>
                         (tableRegistry st),
                     objectToIndexMap :=
                       AList.update tableName (length (mapObjects st)) (objectToIndexMap st),
                     mapObjects := mapObjects st @ [indexKeys keys 0 []]\<rparr>)"
      and lk: "length keys = length (originalData table)"
      and lr: "length newRows = length (originalData table)"
      and rows: "\<forall>i < length (originalData table).
                   rebuildRow ?st1 ?sorted (originalData table ! i) = Inr (keys ! i, newRows ! i)"
      using rebuildTableWithNewColumns_spec [OF reg obj, of ?sorted] by blast
    let ?st' = "st\<lparr>tableRegistry :=
                       AList.update tableName
                         \<lparr>columns = ?sorted, rows = newRows, originalData = originalData table\<rparr>
                         (tableRegistry st),
                     objectToIndexMap :=
                       AList.update tableName (length (mapObjects st)) (objectToIndexMap st),
                     mapObjects := mapObjects st @ [indexKeys keys 0 []]\<rparr>"
    let ?table' = "\<lparr>columns = ?sorted, rows = newRows, originalData = originalData table\<rparr>"
    have m: "mergeTableColumns lc st tableName newColumns = Inr ?st'"
      using reg True run by (simp add: mergeTableColumns_def Let_def)
    have mo: "mapObject ?st' (length (mapObjects st)) = indexKeys keys 0 []"
      by (simp add: mapObject_def)
    have i1: "\<forall>i < length keys. \<exists>j. i \<le> j \<and> j < length keys \<and> keys ! j = keys ! i \<and>
                  map_of (mapObject ?st' (length (mapObjects st))) (keys ! i) = Some j"
      unfolding mo using indexKeys_member [of _ keys 0 "[]"] by simp
    have i2: "\<forall>k j. map_of (mapObject ?st' (length (mapObjects st))) k = Some j \<longrightarrow>
                  j < length keys \<and> keys ! j = k"
      unfolding mo using indexKeys_Some [of keys 0 "[]"] by auto
    have r: "\<forall>i < length (rows table).
                 rebuildRow
                   (st\<lparr>tableRegistry :=
                         AList.update tableName (table\<lparr>columns := columns ?table'\<rparr>) (tableRegistry st)\<rparr>)
                   (columns ?table') (originalData table ! i) = Inr (keys ! i, rows ?table' ! i)"
      using rows par by simp
    show ?thesis
    proof (intro exI [of _ ?st'] exI [of _ ?table'] exI [of _ "length (mapObjects st)"]
             exI [of _ keys] conjI impI)
      show "mergeTableColumns lc st tableName newColumns = Inr ?st'" by (rule m)
      show "map_of (tableRegistry ?st') tableName = Some ?table'" by (simp add: update_conv')
      show "\<forall>other. other \<noteq> tableName \<longrightarrow>
              map_of (tableRegistry ?st') other = map_of (tableRegistry st) other"
        by (simp add: update_conv')
      show "originalData ?table' = originalData table" by simp
      show "length (rows ?table') = length (rows table)" using lr par by simp
      show "columns ?table' = ?sorted" by simp
      show "length keys = length (rows table)" using lk par by simp
      show "\<forall>i < length (rows table).
                 rebuildRow
                   (st\<lparr>tableRegistry :=
                         AList.update tableName (table\<lparr>columns := columns ?table'\<rparr>) (tableRegistry st)\<rparr>)
                   (columns ?table') (originalData table ! i) = Inr (keys ! i, rows ?table' ! i)"
        by (rule r)
      show "map_of (objectToIndexMap ?st') tableName = Some (length (mapObjects st))"
        by (simp add: update_conv')
      show "\<forall>i < length keys. \<exists>j. i \<le> j \<and> j < length keys \<and> keys ! j = keys ! i \<and>
                  map_of (mapObject ?st' (length (mapObjects st))) (keys ! i) = Some j"
        by (rule i1)
      show "\<forall>k j. map_of (mapObject ?st' (length (mapObjects st))) k = Some j \<longrightarrow>
                  j < length keys \<and> keys ! j = k"
        by (rule i2)
    qed
  qed
qed

text \<open>
  The theorem at the table \<^verbatim>\<open>@users\<close> built from \<^verbatim>\<open>[{"id":1},{"id":2}]\<close>, merging the new
  column email: both rows stay in place and are rendered against \<^verbatim>\<open>id,email\<close>.
\<close>

theorem mergeTableColumns_keeps_rows_witness:
  "processValue codeUnitCompare (initialize [] [])
     (JArr [JObj [(''id'', JNum 1)], JObj [(''id'', JNum 2)]]) ''users'' = Inr usersState \<and>
   map_of (tableRegistry usersState) ''@users'' = Some usersTable \<and>
   length (rows usersTable) = length (originalData usersTable) \<and>
   list_all isObjectLike (originalData usersTable) \<and>
   \<not> set [''email''] \<subseteq> set (columns usersTable) \<and>
   (\<exists>st' table'.
      mergeTableColumns codeUnitCompare usersState ''@users'' [''email''] = Inr st' \<and>
      map_of (tableRegistry st') ''@users'' = Some table' \<and>
      originalData table' = [JObj [(''id'', JNum 1)], JObj [(''id'', JNum 2)]] \<and>
      length (rows table') = 2 \<and>
      columns table' = [''id'', ''email''] \<and>
      rows table' = [[''1'', ''null''], [''2'', ''null'']])"
proof -
  have run: "processValue codeUnitCompare (initialize [] [])
     (JArr [JObj [(''id'', JNum 1)], JObj [(''id'', JNum 2)]]) ''users'' = Inr usersState"
    by code_simp
  have reg: "map_of (tableRegistry usersState) ''@users'' = Some usersTable"
    by (simp add: usersState_def)
  have par: "length (rows usersTable) = length (originalData usersTable)"
    by (simp add: usersTable_def)
  have obj: "list_all isObjectLike (originalData usersTable)"
    by (simp add: usersTable_def isObjectLike_def)
  have new: "\<not> set [''email''] \<subseteq> set (columns usersTable)"
    by (simp add: usersTable_def)
  have rows: "rows (the (map_of (tableRegistry (projr
                (mergeTableColumns codeUnitCompare usersState ''@users'' [''email'']))) ''@users'')) =
              [[''1'', ''null''], [''2'', ''null'']]"
    by code_simp
  have cols: "sortColumnNames codeUnitCompare (mergedColumnNames (columns usersTable) [''email'']) =
              [''id'', ''email'']"
    by code_simp
  obtain st' table' where
    m: "mergeTableColumns codeUnitCompare usersState ''@users'' [''email''] = Inr st'"
    and t: "map_of (tableRegistry st') ''@users'' = Some table'"
    and o: "originalData table' = originalData usersTable"
    and l: "length (rows table') = length (rows usersTable)"
    and c: "columns table' =
              sortColumnNames codeUnitCompare (mergedColumnNames (columns usersTable) [''email''])"
    using mergeTableColumns_keeps_rows [OF reg par obj, of codeUnitCompare "[''email'']"]
    by blast
  have r: "rows table' = [[''1'', ''null''], [''2'', ''null'']]"
    using rows unfolding m using t by simp
  have "mergeTableColumns codeUnitCompare usersState ''@users'' [''email''] = Inr st' \<and>
      map_of (tableRegistry st') ''@users'' = Some table' \<and>
      originalData table' = [JObj [(''id'', JNum 1)], JObj [(''id'', JNum 2)]] \<and>
      length (rows table') = 2 \<and>
      columns table' = [''id'', ''email''] \<and>
      rows table' = [[''1'', ''null''], [''2'', ''null'']]"
    using m t o l c r unfolding cols by (simp add: usersTable_def)
  then have "\<exists>st' table'.
      mergeTableColumns codeUnitCompare usersState ''@users'' [''email''] = Inr st' \<and>
      map_of (tableRegistry st') ''@users'' = Some table' \<and>
      originalData table' = [JObj [(''id'', JNum 1)], JObj [(''id'', JNum 2)]] \<and>
      length (rows table') = 2 \<and>
      columns table' = [''id'', ''email''] \<and>
      rows table' = [[''1'', ''null''], [''2'', ''null'']]"
    by blast
  then show ?thesis using run reg par obj new by blast
qed
section \<open>Arrays of identical records\<close>



section \<open>Bracket literals of nested lists\<close>

lemma processValue_primitive_array:
  assumes "array = firstElement # others" and "\<not> isRecord firstElement"
    and "map_of (arrayReferenceCache st) (stringify (JArr array)) = None"
  shows "processValue lc st (JArr array) ctx =
           (case serializeNestedArray array of
              Inl e \<Rightarrow> Inl e
            | Inr serializedArray \<Rightarrow>
                Inr (st\<lparr>arrayReferenceCache :=
                          AList.update (stringify (JArr array)) serializedArray
                            (arrayReferenceCache st)\<rparr>))"
  using assms(2,3) unfolding assms(1)
  by (simp add: processValue.simps processArrayValue.simps isObjectLike_def isRecord_def
           del: stringify.simps)

text \<open>
  Claim C5 is not what the code does. A list whose first element is not a record is
  rendered as one bracket literal and no table is created, but only the elements of the
  list and the elements of its sub-lists go through primitive serialization. A list two
  levels down is converted by \<^verbatim>\<open>String\<close>, so its scalars are not serialized: in
  \<^verbatim>\<open>[[[null,"a b"]]]\<close> the null becomes the empty text and the string loses its quotes, and
  the list is encoded as \<^verbatim>\<open>[[,a b]]\<close>, where the rendering of the claim is
  \<^verbatim>\<open>[[null,"a b"]]\<close>. On the example of the claim, \<^verbatim>\<open>[1,[2,3],[[4,5]]]\<close>, the two agree.
\<close>

theorem processArrayValue_deep_scalar_not_serialized:
  "processValue codeUnitCompare (initialize [] []) (JArr [JArr [JArr [JNull, JStr ''a b'']]]) ''root'' =
     Inr ((initialize [] [])\<lparr>arrayReferenceCache := [(''[[[null,\"a b\"]]]'', ''[[,a b]]'')]\<rparr>) \<and>
   parse codeUnitCompare (JArr [JArr [JArr [JNull, JStr ''a b'']]]) [] [] = Inr ''[[,a b]]'' \<and>
   specBracketLiteral [JArr [JArr [JNull, JStr ''a b'']]] = ''[[null,\"a b\"]]'' \<and>
   serializePrimitive JNull = Inr ''null'' \<and>
   serializePrimitive (JStr ''a b'') = Inr ''\"a b\"'' \<and>
   parse codeUnitCompare (JArr [JNum 1, JArr [JNum 2, JNum 3], JArr [JArr [JNum 4, JNum 5]]]) [] [] =
     Inr ''[1,[2,3],[4,5]]'' \<and>
   specBracketLiteral [JNum 1, JArr [JNum 2, JNum 3], JArr [JArr [JNum 4, JNum 5]]] =
     ''[1,[2,3],[4,5]]''"
  by code_simp
section \<open>Column ordering\<close>

lemma distinct_pair:
  assumes "distinct xs" and "set xs = {x, y}" and "x \<noteq> y"
  shows "xs = [x, y] \<or> xs = [y, x]"
proof -
  have "length xs = card {x, y}"
    using assms(1,2) distinct_card [of xs] by simp
  then have "length xs = 2" using assms(3) by simp
  then obtain u v where xs: "xs = [u, v]"
    by (cases xs; cases "tl xs") auto
  then have "{u, v} = {x, y}" using assms(2) by simp
  then show ?thesis unfolding xs by (auto simp: doubleton_eq_iff)
qed

lemma sorted_wrt_arraySort_localeCompare:
  "sorted_wrt (\<lambda>a b. localeCompare a b \<le> 0) (arraySort localeCompare xs)"
proof (rule sorted_arraySort [where S = UNIV])
  show "localeCompare a b \<le> 0 \<or> localeCompare b a \<le> 0" for a b
    by (rule localeCompare_total)
  show "localeCompare a c \<le> 0" if "localeCompare a b \<le> 0" "localeCompare b c \<le> 0" for a b c
    using that by (rule localeCompare_trans)
qed simp

lemma arraySort_lowerCase_lexicographic:
  assumes "list_all lowerCaseName xs"
  shows "sorted_wrt (\<lambda>a b. codeUnitCompare a b \<le> 0) (arraySort localeCompare xs)"
proof (rule sorted_wrt_mono_rel [OF _ sorted_wrt_arraySort_localeCompare])
  fix a b
  assume "a \<in> set (arraySort localeCompare xs)" "b \<in> set (arraySort localeCompare xs)"
    and le: "localeCompare a b \<le> 0"
  then have "lowerCaseName a" "lowerCaseName b"
    using assms by (auto simp: set_arraySort list_all_iff)
  then show "codeUnitCompare a b \<le> 0"
    using le localeCompare_lowerCase [of a b] by simp
qed

lemma sortColumnNames_example:
  assumes d: "distinct cols" and s: "set cols = {''b'', ''id'', ''a'', ''name''}"
  shows "sortColumnNames localeCompare cols = [''id'', ''name'', ''a'', ''b'']"
proof -
  let ?r = "filter (\<lambda>c. c \<notin> set priorityColumns) cols"
  have p: "filter (\<lambda>p. p \<in> set cols) priorityColumns = [''id'', ''name'']"
    unfolding s by (simp add: priorityColumns_def)
  have "set ?r = {''a'', ''b''}"
    using s by (auto simp: priorityColumns_def)
  moreover have "distinct ?r" using d by simp
  ultimately have "?r = [''a'', ''b''] \<or> ?r = [''b'', ''a'']"
    using distinct_pair [of ?r "''a''" "''b''"] by simp
  moreover have "arraySort localeCompare [''a'', ''b''] = [''a'', ''b'']" by code_simp
  moreover have "arraySort localeCompare [''b'', ''a''] = [''a'', ''b'']" by code_simp
  ultimately have r: "arraySort localeCompare ?r = [''a'', ''b'']" by auto
  show ?thesis
    unfolding sortColumnNames_split [OF d] p r by simp
qed

text \<open>
  Claim C6, as the code has it. The comparison of the remaining columns is
  \<^verbatim>\<open>localeCompare\<close>, the collation of the host, which is a parameter here and is assumed
  total and transitive. For every list of column names, the schema order is a
  rearrangement of the list; for every set of column names (a duplicate-free list) it is
  the columns id, name, type, key that are present, in this literal priority order,
  followed by all remaining columns sorted by the collation. Under the modelled root
  collation this is the lexicographic order of code units when the names consist of
  lower-case letters and digits, and the columns b, id, a, name, in any order, give the
  schema \<^verbatim>\<open>id,name,a,b\<close>. The ordering is idempotent. It is applied at every schema merge
  (the column list after a merge is the schema order of the union of the old and the new
  columns) and at table creation: in every state that a traversal reaches from a fresh
  engine, the column list of every table is in schema order.
\<close>

theorem sortColumnNames_schema_order:
  assumes total_order: "\<forall>a b. lc a b \<le> 0 \<or> lc b a \<le> 0"
    and transitive: "\<forall>a b c. lc a b \<le> 0 \<longrightarrow> lc b c \<le> 0 \<longrightarrow> lc a c \<le> 0"
  shows "set (sortColumnNames lc cols) = set cols \<and>
         length (sortColumnNames lc cols) = length cols \<and>
         (distinct cols \<longrightarrow>
            sortColumnNames lc cols =
              filter (\<lambda>p. p \<in> set cols) priorityColumns @
              arraySort lc (filter (\<lambda>c. c \<notin> set priorityColumns) cols)) \<and>
         sorted_wrt (\<lambda>a b. lc a b \<le> 0)
           (arraySort lc (filter (\<lambda>c. c \<notin> set priorityColumns) cols)) \<and>
         (list_all lowerCaseName cols \<longrightarrow>
            sorted_wrt (\<lambda>a b. codeUnitCompare a b \<le> 0)
              (arraySort localeCompare (filter (\<lambda>c. c \<notin> set priorityColumns) cols))) \<and>
         (distinct cols \<longrightarrow> set cols = {''b'', ''id'', ''a'', ''name''} \<longrightarrow>
            sortColumnNames localeCompare cols = [''id'', ''name'', ''a'', ''b'']) \<and>
         sortColumnNames lc (sortColumnNames lc cols) = sortColumnNames lc cols \<and>
         (\<forall>st n new st' t'.
            mergeTableColumns lc st n new = Inr st' \<longrightarrow>
            map_of (tableRegistry st') n = Some t' \<longrightarrow>
            (\<exists>t. map_of (tableRegistry st) n = Some t \<and>
                 columns t' = sortColumnNames lc (mergedColumnNames (columns t) new))) \<and>
         (\<forall>dv ts v ctx st' n t.
            processValue lc (initialize dv ts) v ctx = Inr st' \<longrightarrow>
            map_of (tableRegistry st') n = Some t \<longrightarrow>
            sortColumnNames lc (columns t) = columns t)"
proof -
  have total: "lc a b \<le> 0 \<or> lc b a \<le> 0" for a b
    using total_order by blast
  have trans: "lc a c \<le> 0" if "lc a b \<le> 0" "lc b c \<le> 0" for a b c
    using transitive that by blast
  show ?thesis
  proof (intro conjI impI allI)
    show "set (sortColumnNames lc cols) = set cols" by (rule set_sortColumnNames)
    show "length (sortColumnNames lc cols) = length cols" by (rule length_sortColumnNames)
    show "sortColumnNames lc cols =
            filter (\<lambda>p. p \<in> set cols) priorityColumns @
            arraySort lc (filter (\<lambda>c. c \<notin> set priorityColumns) cols)"
      if "distinct cols"
      using that by (rule sortColumnNames_split)
    show "sorted_wrt (\<lambda>a b. lc a b \<le> 0)
            (arraySort lc (filter (\<lambda>c. c \<notin> set priorityColumns) cols))"
    proof (rule sorted_arraySort [where S = UNIV])
      show "lc a b \<le> 0 \<or> lc b a \<le> 0" for a b by (rule total)
      show "lc a c \<le> 0" if "lc a b \<le> 0" "lc b c \<le> 0" for a b c
        using that by (rule trans)
    qed simp
    show "sorted_wrt (\<lambda>a b. codeUnitCompare a b \<le> 0)
            (arraySort localeCompare (filter (\<lambda>c. c \<notin> set priorityColumns) cols))"
      if "list_all lowerCaseName cols"
    proof (rule arraySort_lowerCase_lexicographic)
      show "list_all lowerCaseName (filter (\<lambda>c. c \<notin> set priorityColumns) cols)"
        using that by (simp add: list_all_iff)
    qed
    show "sortColumnNames localeCompare cols = [''id'', ''name'', ''a'', ''b'']"
      if "distinct cols" "set cols = {''b'', ''id'', ''a'', ''name''}"
      using that by (rule sortColumnNames_example)
    show "sortColumnNames lc (sortColumnNames lc cols) = sortColumnNames lc cols"
      using total trans by (rule sortColumnNames_idem)
    show "\<exists>t. map_of (tableRegistry st) n = Some t \<and>
              columns t' = sortColumnNames lc (mergedColumnNames (columns t) new)"
      if "mergeTableColumns lc st n new = Inr st'" "map_of (tableRegistry st') n = Some t'"
      for st n new st' t'
      using that by (rule mergeTableColumns_columns)
    show "sortColumnNames lc (columns t) = columns t"
      if run: "processValue lc (initialize dv ts) v ctx = Inr st'"
        and t: "map_of (tableRegistry st') n = Some t"
      for dv ts v ctx st' n t
    proof -
      have "columnsSorted lc st'"
        using columnsSorted_initialize run by (rule columnsSorted_traversal)
      then obtain cs where "columns t = sortColumnNames lc cs"
        using t unfolding columnsSorted_def by blast
      then show ?thesis
        using sortColumnNames_idem [of lc cs, OF total trans] by simp
    qed
  qed
qed

text \<open>
  The theorem at the modelled root collation and the columns b, id, a, name: the schema
  is \<^verbatim>\<open>id,name,a,b\<close>.
\<close>

theorem sortColumnNames_schema_order_witness:
  "(\<forall>a b. localeCompare a b \<le> 0 \<or> localeCompare b a \<le> 0) \<and>
   distinct [''b'', ''id'', ''a'', ''name''] \<and>
   list_all lowerCaseName [''b'', ''id'', ''a'', ''name''] \<and>
   set [''b'', ''id'', ''a'', ''name''] = {''b'', ''id'', ''a'', ''name''} \<and>
   filter (\<lambda>p. p \<in> set [''b'', ''id'', ''a'', ''name'']) priorityColumns = [''id'', ''name''] \<and>
   arraySort localeCompare
     (filter (\<lambda>c. c \<notin> set priorityColumns) [''b'', ''id'', ''a'', ''name'']) = [''a'', ''b''] \<and>
   sorted_wrt (\<lambda>a b. codeUnitCompare a b \<le> 0) [''a'', ''b''] \<and>
   sortColumnNames localeCompare [''b'', ''id'', ''a'', ''name''] = [''id'', ''name'', ''a'', ''b'']"
proof -
  have tot: "\<forall>a b. localeCompare a b \<le> 0 \<or> localeCompare b a \<le> 0"
    using localeCompare_total by blast
  have tr: "\<forall>a b c. localeCompare a b \<le> 0 \<longrightarrow> localeCompare b c \<le> 0 \<longrightarrow> localeCompare a c \<le> 0"
    using localeCompare_trans by blast
  have d: "distinct [''b'', ''id'', ''a'', ''name'']" by simp
  have l: "list_all lowerCaseName [''b'', ''id'', ''a'', ''name'']" by code_simp
  have s: "set [''b'', ''id'', ''a'', ''name''] = {''b'', ''id'', ''a'', ''name''}" by simp
  have p: "filter (\<lambda>p. p \<in> set [''b'', ''id'', ''a'', ''name'']) priorityColumns = [''id'', ''name'']"
    by (simp add: priorityColumns_def)
  have r: "arraySort localeCompare
     (filter (\<lambda>c. c \<notin> set priorityColumns) [''b'', ''id'', ''a'', ''name'']) = [''a'', ''b'']"
    by code_simp
  note t = sortColumnNames_schema_order [OF tot tr, of "[''b'', ''id'', ''a'', ''name'']"]
  have "distinct [''b'', ''id'', ''a'', ''name''] \<longrightarrow>
          set [''b'', ''id'', ''a'', ''name''] = {''b'', ''id'', ''a'', ''name''} \<longrightarrow>
          sortColumnNames localeCompare [''b'', ''id'', ''a'', ''name''] = [''id'', ''name'', ''a'', ''b'']"
    using t by (elim conjE)
  then have e: "sortColumnNames localeCompare [''b'', ''id'', ''a'', ''name''] = [''id'', ''name'', ''a'', ''b'']"
    using d s by (elim impE)
  have "list_all lowerCaseName [''b'', ''id'', ''a'', ''name''] \<longrightarrow>
          sorted_wrt (\<lambda>a b. codeUnitCompare a b \<le> 0)
            (arraySort localeCompare
               (filter (\<lambda>c. c \<notin> set priorityColumns) [''b'', ''id'', ''a'', ''name'']))"
    using t by (elim conjE)
  then have x: "sorted_wrt (\<lambda>a b. codeUnitCompare a b \<le> 0) [''a'', ''b'']"
    using l unfolding r by (elim impE)
  show ?thesis by (intro conjI tot d l s p r x e)
qed

text \<open>
  Claim C6 as stated fails: the remaining columns are not in lexicographic order. Under
  the root collation the columns B and a give the schema \<^verbatim>\<open>a,B\<close>, while B precedes a by
  code units; and no order of the characters makes the collation lexicographic, since a
  precedes A and yet Aa precedes ab.
\<close>

theorem sortColumnNames_not_lexicographic:
  "sortColumnNames localeCompare [''B'', ''a''] = [''a'', ''B''] \<and>
   codeUnitCompare ''B'' ''a'' = - 1 \<and>
   localeCompare ''a'' ''A'' = - 1 \<and>
   sortColumnNames localeCompare [''ab'', ''Aa''] = [''Aa'', ''ab'']"
  by code_simp
section \<open>Deduplication is scoped per table\<close>



section \<open>Dependency orderer: termination and order\<close>

lemma map_of_graphKeys: "(map_of g n \<noteq> None) = (n \<in> graphKeys g)"
  by (simp add: graphKeys_def map_of_eq_None_iff)

lemma finite_unvisited: "finite (unvisited g s)"
  by (simp add: unvisited_def graphKeys_def)

lemma removeAll_setAdd: "n \<notin> set xs \<Longrightarrow> removeAll n (setAdd n xs) = xs"
  by (simp add: setAdd_def)

lemma set_setAdd: "set (setAdd x xs) = insert x (set xs)"
  by (auto simp: setAdd_def)

lemma unvisited_enter:
  assumes "n \<in> graphKeys g" "n \<notin> set (visitingNodes s)" "n \<notin> set (visitedNodes s)"
  shows "card (unvisited g (s\<lparr>visitingNodes := setAdd n (visitingNodes s)\<rparr>)) < card (unvisited g s)"
proof -
  have "unvisited g (s\<lparr>visitingNodes := setAdd n (visitingNodes s)\<rparr>) = unvisited g s - {n}"
    by (auto simp: unvisited_def set_setAdd)
  moreover have "n \<in> unvisited g s"
    using assms by (simp add: unvisited_def)
  ultimately show ?thesis
    using card_Diff1_less [OF finite_unvisited, of n g s] by presburger
qed

lemma unvisited_mono:
  assumes "set (visitingNodes s') = set (visitingNodes s)"
    and "set (visitedNodes s) \<subseteq> set (visitedNodes s')"
  shows "card (unvisited g s') \<le> card (unvisited g s)"
proof (rule card_mono [OF finite_unvisited])
  show "unvisited g s' \<subseteq> unvisited g s"
    using assms by (auto simp: unvisited_def)
qed

lemma visit_returns:
  "(node \<in> graphKeys g \<longrightarrow> card (unvisited g s) < depth \<longrightarrow>
      (\<exists>s'. visitNode depth g node s = Some s' \<and>
            visitingNodes s' = visitingNodes s \<and>
            set (visitedNodes s) \<subseteq> set (visitedNodes s')))"
  "(card (unvisited g s) < depth \<longrightarrow>
      (\<exists>s'. visitDependencies depth g deps s = Some s' \<and>
            visitingNodes s' = visitingNodes s \<and>
            set (visitedNodes s) \<subseteq> set (visitedNodes s')))"
proof (induction depth g node s and depth g deps s rule: visitNode_visitDependencies.induct)
  case (1 g node s)
  show ?case by simp
next
  case (2 depth g node s)
  show ?case
  proof (intro impI)
    assume k: "node \<in> graphKeys g" and c: "card (unvisited g s) < Suc depth"
    show "\<exists>s'. visitNode (Suc depth) g node s = Some s' \<and>
            visitingNodes s' = visitingNodes s \<and>
            set (visitedNodes s) \<subseteq> set (visitedNodes s')"
    proof (cases "node \<in> set (visitedNodes s) \<or> node \<in> set (visitingNodes s)")
      case True
      then show ?thesis by auto
    next
      case False
      let ?s1 = "s\<lparr>visitingNodes := setAdd node (visitingNodes s)\<rparr>"
      let ?deps = "case map_of g node of Some dependencies \<Rightarrow> dependencies | None \<Rightarrow> []"
      have "card (unvisited g ?s1) < card (unvisited g s)"
        using unvisited_enter [OF k] False by simp
      then have "card (unvisited g ?s1) < depth" using c by simp
      then obtain s2 where s2: "visitDependencies depth g ?deps ?s1 = Some s2"
        "visitingNodes s2 = visitingNodes ?s1"
        "set (visitedNodes ?s1) \<subseteq> set (visitedNodes s2)"
        using 2 False by auto
      have "removeAll node (visitingNodes s2) = visitingNodes s"
        using s2(2) False by (simp add: removeAll_setAdd)
      then show ?thesis
        using False s2 by (auto simp: set_setAdd)
    qed
  qed
next
  case (3 depth g s)
  show ?case by simp
next
  case (4 depth g dependency rest s)
  show ?case
  proof (intro impI)
    assume c: "card (unvisited g s) < depth"
    show "\<exists>s'. visitDependencies depth g (dependency # rest) s = Some s' \<and>
            visitingNodes s' = visitingNodes s \<and>
            set (visitedNodes s) \<subseteq> set (visitedNodes s')"
    proof (cases "map_of g dependency \<noteq> None")
      case True
      then have k: "dependency \<in> graphKeys g"
        using map_of_graphKeys [of g dependency] by blast
      obtain s1 where s1: "visitNode depth g dependency s = Some s1"
        "visitingNodes s1 = visitingNodes s" "set (visitedNodes s) \<subseteq> set (visitedNodes s1)"
        using 4(1) True k c by auto
      have "card (unvisited g s1) \<le> card (unvisited g s)"
        using s1 by (intro unvisited_mono) simp_all
      then have "card (unvisited g s1) < depth" using c by simp
      then obtain s2 where "visitDependencies depth g rest s1 = Some s2"
        "visitingNodes s2 = visitingNodes s1" "set (visitedNodes s1) \<subseteq> set (visitedNodes s2)"
        using 4(2) True s1(1) by auto
      then show ?thesis using True s1 by auto
    next
      case False
      then show ?thesis using 4(3) c by auto
    qed
  qed
qed

lemma visitTables_returns:
  "set ks \<subseteq> graphKeys g \<Longrightarrow> card (unvisited g s) < depth \<Longrightarrow>
   \<exists>s'. visitTables depth g ks s = Some s'"
proof (induction ks arbitrary: s)
  case Nil
  show ?case by simp
next
  case (Cons k ks)
  obtain s1 where s1: "visitNode depth g k s = Some s1"
    "visitingNodes s1 = visitingNodes s" "set (visitedNodes s) \<subseteq> set (visitedNodes s1)"
    using visit_returns(1) [of k g s depth] Cons.prems by auto
  have "card (unvisited g s1) \<le> card (unvisited g s)"
    using s1 by (intro unvisited_mono) simp_all
  then have "card (unvisited g s1) < depth" using Cons.prems by simp
  then show ?case using Cons.IH [of s1] Cons.prems s1(1) by simp
qed

lemma topologicalOrder_returns:
  assumes "length g < depth"
  shows "\<exists>order. topologicalOrder depth g = Some order"
proof -
  let ?s0 = "\<lparr>sortedOrder = [], visitedNodes = [], visitingNodes = []\<rparr>"
  have "card (unvisited g ?s0) \<le> length g"
    using card_length [of "map fst g"] by (simp add: unvisited_def graphKeys_def)
  then have "card (unvisited g ?s0) < depth" using assms by simp
  then obtain s' where "visitTables depth g (map fst g) ?s0 = Some s'"
    using visitTables_returns [of "map fst g" g ?s0 depth] by (auto simp: graphKeys_def)
  then show ?thesis by (simp add: topologicalOrder_def)
qed


lemma takeWhile_until_last: "x \<notin> set xs \<Longrightarrow> takeWhile (\<lambda>y. y \<noteq> x) (xs @ [x]) = xs"
  by (induction xs) auto

lemma takeWhile_until_member:
  "x \<in> set xs \<Longrightarrow> takeWhile (\<lambda>y. y \<noteq> x) (xs @ ys) = takeWhile (\<lambda>y. y \<noteq> x) xs"
  by (induction xs) auto

lemma ordered_enter:
  "ordered g s \<Longrightarrow> n \<notin> set (visitedNodes s) \<Longrightarrow>
   ordered g (s\<lparr>visitingNodes := setAdd n (visitingNodes s)\<rparr>)"
  by (auto simp: ordered_def set_setAdd)

lemma ordered_leave:
  assumes o: "ordered g s2" and k: "n \<in> graphKeys g"
    and vis: "set (visitingNodes s2) = insert n V" and nV: "n \<notin> V"
    and deps: "\<forall>d. (n, d) \<in> dependencyEdges g \<longrightarrow> d \<in> set (visitedNodes s2)"
    and v': "set visiting' = V"
  shows "ordered g (s2\<lparr>visitingNodes := visiting',
                        visitedNodes := setAdd n (visitedNodes s2),
                        sortedOrder := sortedOrder s2 @ [n]\<rparr>)"
proof -
  have n_unvisited: "n \<notin> set (visitedNodes s2)"
    using o vis by (auto simp: ordered_def)
  then have n_order: "n \<notin> set (sortedOrder s2)"
    using o by (simp add: ordered_def)
  have tw_self: "takeWhile (\<lambda>y. y \<noteq> n) (sortedOrder s2 @ [n]) = sortedOrder s2"
    using n_order by (rule takeWhile_until_last)
  have tw_old: "takeWhile (\<lambda>y. y \<noteq> m) (sortedOrder s2 @ [n]) = takeWhile (\<lambda>y. y \<noteq> m) (sortedOrder s2)"
    if "m \<in> set (visitedNodes s2)" for m
  proof (rule takeWhile_until_member)
    show "m \<in> set (sortedOrder s2)" using that o by (simp add: ordered_def)
  qed
  have edges: "d \<in> set (takeWhile (\<lambda>y. y \<noteq> m) (sortedOrder s2 @ [n]))"
    if m: "m \<in> set (setAdd n (visitedNodes s2))" and e: "(m, d) \<in> dependencyEdges g" for m d
  proof (cases "m = n")
    case True
    then have "d \<in> set (visitedNodes s2)" using deps e by simp
    then have "d \<in> set (sortedOrder s2)" using o by (simp add: ordered_def)
    then show ?thesis using True tw_self by simp
  next
    case False
    then have mv: "m \<in> set (visitedNodes s2)" using m by (simp add: set_setAdd)
    then have "d \<in> set (takeWhile (\<lambda>y. y \<noteq> m) (sortedOrder s2))"
      using o e by (simp add: ordered_def)
    then show ?thesis using tw_old [OF mv] by simp
  qed
  have "set (sortedOrder s2 @ [n]) = set (setAdd n (visitedNodes s2))"
    using o by (auto simp: ordered_def set_setAdd)
  moreover have "distinct (sortedOrder s2 @ [n])"
    using o n_order by (simp add: ordered_def)
  moreover have "set (setAdd n (visitedNodes s2)) \<inter> set visiting' = {}"
    using o vis nV v' by (auto simp: ordered_def set_setAdd)
  moreover have "set (setAdd n (visitedNodes s2)) \<subseteq> graphKeys g"
    using o k by (auto simp: ordered_def set_setAdd)
  ultimately show ?thesis
    using edges by (simp add: ordered_def)
qed

lemma visit_ordered:
  assumes acyclic: "acyclic (dependencyEdges g0)"
  shows
  "(g = g0 \<longrightarrow> visitNode depth g node s = Some s' \<longrightarrow> node \<in> graphKeys g \<longrightarrow> ordered g s \<longrightarrow>
      (\<forall>v \<in> set (visitingNodes s). (v, node) \<in> (dependencyEdges g)\<^sup>+) \<longrightarrow>
      ordered g s' \<and> node \<in> set (visitedNodes s') \<and> visitingNodes s' = visitingNodes s \<and>
      set (visitedNodes s) \<subseteq> set (visitedNodes s'))"
  "(g = g0 \<longrightarrow> visitDependencies depth g deps s = Some s' \<longrightarrow> ordered g s \<longrightarrow>
      (\<forall>d \<in> set deps. d \<in> graphKeys g \<longrightarrow>
          (\<forall>v \<in> set (visitingNodes s). (v, d) \<in> (dependencyEdges g)\<^sup>+)) \<longrightarrow>
      ordered g s' \<and> (\<forall>d \<in> set deps. d \<in> graphKeys g \<longrightarrow> d \<in> set (visitedNodes s')) \<and>
      visitingNodes s' = visitingNodes s \<and>
      set (visitedNodes s) \<subseteq> set (visitedNodes s'))"
proof (induction depth g node s and depth g deps s arbitrary: s' and s'
       rule: visitNode_visitDependencies.induct)
  case (1 g node s)
  show ?case by simp
next
  case (2 depth g node s)
  show ?case
  proof (intro impI)
    assume g: "g = g0" and run: "visitNode (Suc depth) g node s = Some s'"
      and k: "node \<in> graphKeys g" and o: "ordered g s"
      and path: "\<forall>v \<in> set (visitingNodes s). (v, node) \<in> (dependencyEdges g)\<^sup>+"
    have not_visiting: "node \<notin> set (visitingNodes s)"
    proof
      assume "node \<in> set (visitingNodes s)"
      then have "(node, node) \<in> (dependencyEdges g)\<^sup>+" using path by simp
      then show False using acyclic g by (simp add: acyclic_def)
    qed
    show "ordered g s' \<and> node \<in> set (visitedNodes s') \<and> visitingNodes s' = visitingNodes s \<and>
          set (visitedNodes s) \<subseteq> set (visitedNodes s')"
    proof (cases "node \<in> set (visitedNodes s)")
      case True
      then show ?thesis using run o by simp
    next
      case False
      let ?s1 = "s\<lparr>visitingNodes := setAdd node (visitingNodes s)\<rparr>"
      let ?deps = "case map_of g node of Some dependencies \<Rightarrow> dependencies | None \<Rightarrow> []"
      obtain s2 where s2: "visitDependencies depth g ?deps ?s1 = Some s2"
        and s': "s' = s2\<lparr>visitingNodes := removeAll node (visitingNodes s2),
                         visitedNodes := setAdd node (visitedNodes s2),
                         sortedOrder := sortedOrder s2 @ [node]\<rparr>"
        using run False not_visiting by (auto split: option.splits)
      have o1: "ordered g ?s1" using o False by (rule ordered_enter)
      have edge: "(node, d) \<in> dependencyEdges g" if "d \<in> set ?deps" "d \<in> graphKeys g" for d
        using that by (cases "map_of g node") (auto simp: dependencyEdges_def)
      have path1: "\<forall>d \<in> set ?deps. d \<in> graphKeys g \<longrightarrow>
                     (\<forall>v \<in> set (visitingNodes ?s1). (v, d) \<in> (dependencyEdges g)\<^sup>+)"
      proof (intro ballI impI)
        fix d v assume d: "d \<in> set ?deps" "d \<in> graphKeys g" and v: "v \<in> set (visitingNodes ?s1)"
        have e: "(node, d) \<in> dependencyEdges g" using d by (rule edge)
        show "(v, d) \<in> (dependencyEdges g)\<^sup>+"
        proof (cases "v = node")
          case True
          then show ?thesis using e by auto
        next
          case False
          then have "v \<in> set (visitingNodes s)" using v by (simp add: set_setAdd)
          then have "(v, node) \<in> (dependencyEdges g)\<^sup>+" using path by simp
          then show ?thesis using e by (rule trancl_into_trancl)
        qed
      qed
      have post: "ordered g s2 \<and> (\<forall>d \<in> set ?deps. d \<in> graphKeys g \<longrightarrow> d \<in> set (visitedNodes s2)) \<and>
                  visitingNodes s2 = visitingNodes ?s1 \<and>
                  set (visitedNodes ?s1) \<subseteq> set (visitedNodes s2)"
        using 2 [OF False not_visiting, of s2] g s2 o1 path1 by blast
      have deps_visited: "\<forall>d. (node, d) \<in> dependencyEdges g \<longrightarrow> d \<in> set (visitedNodes s2)"
        using post by (auto simp: dependencyEdges_def)
      have vis2: "set (visitingNodes s2) = insert node (set (visitingNodes s))"
        using post by (simp add: set_setAdd)
      have rem: "removeAll node (visitingNodes s2) = visitingNodes s"
        using post not_visiting by (simp add: removeAll_setAdd)
      have "ordered g s'"
        unfolding s' rem
        by (rule ordered_leave [OF _ k vis2 not_visiting deps_visited refl]) (use post in simp)
      then show ?thesis
        using post by (auto simp: s' removeAll_setAdd [OF not_visiting] set_setAdd)
    qed
  qed
next
  case (3 depth g s)
  show ?case by simp
next
  case (4 depth g dependency rest s)
  show ?case
  proof (intro impI)
    assume g: "g = g0" and run: "visitDependencies depth g (dependency # rest) s = Some s'"
      and o: "ordered g s"
      and path: "\<forall>d \<in> set (dependency # rest). d \<in> graphKeys g \<longrightarrow>
                   (\<forall>v \<in> set (visitingNodes s). (v, d) \<in> (dependencyEdges g)\<^sup>+)"
    show "ordered g s' \<and> (\<forall>d \<in> set (dependency # rest). d \<in> graphKeys g \<longrightarrow> d \<in> set (visitedNodes s')) \<and>
          visitingNodes s' = visitingNodes s \<and> set (visitedNodes s) \<subseteq> set (visitedNodes s')"
    proof (cases "map_of g dependency \<noteq> None")
      case True
      then have k: "dependency \<in> graphKeys g"
        using map_of_graphKeys [of g dependency] by blast
      obtain s1 where s1: "visitNode depth g dependency s = Some s1"
        and rest: "visitDependencies depth g rest s1 = Some s'"
        using run True by (auto split: option.splits)
      have p1: "ordered g s1 \<and> dependency \<in> set (visitedNodes s1) \<and>
                visitingNodes s1 = visitingNodes s \<and> set (visitedNodes s) \<subseteq> set (visitedNodes s1)"
        using 4(1) [OF True, of s1] g s1 k o path by simp
      have p2: "ordered g s' \<and> (\<forall>d \<in> set rest. d \<in> graphKeys g \<longrightarrow> d \<in> set (visitedNodes s')) \<and>
                visitingNodes s' = visitingNodes s1 \<and> set (visitedNodes s1) \<subseteq> set (visitedNodes s')"
        using 4(2) [OF True s1, of s'] g rest p1 path by simp
      show ?thesis using p1 p2 by auto
    next
      case False
      then have nk: "dependency \<notin> graphKeys g"
        using map_of_graphKeys [of g dependency] by blast
      have rest: "visitDependencies depth g rest s = Some s'"
        using run False by simp
      have "ordered g s' \<and> (\<forall>d \<in> set rest. d \<in> graphKeys g \<longrightarrow> d \<in> set (visitedNodes s')) \<and>
            visitingNodes s' = visitingNodes s \<and> set (visitedNodes s) \<subseteq> set (visitedNodes s')"
        using 4(3) [OF False, of s'] g rest o path by simp
      then show ?thesis using nk by auto
    qed
  qed
qed


lemma visitTables_ordered:
  assumes acyclic: "acyclic (dependencyEdges g)"
  shows "set ks \<subseteq> graphKeys g \<Longrightarrow> ordered g s \<Longrightarrow> visitingNodes s = [] \<Longrightarrow>
         visitTables depth g ks s = Some s' \<Longrightarrow>
         ordered g s' \<and> set ks \<subseteq> set (visitedNodes s') \<and> visitingNodes s' = [] \<and>
         set (visitedNodes s) \<subseteq> set (visitedNodes s')"
proof (induction ks arbitrary: s)
  case Nil
  then show ?case by simp
next
  case (Cons k ks)
  obtain s1 where s1: "visitNode depth g k s = Some s1"
    and rest: "visitTables depth g ks s1 = Some s'"
    using Cons.prems(4) by (auto split: option.splits)
  have p1: "ordered g s1 \<and> k \<in> set (visitedNodes s1) \<and> visitingNodes s1 = visitingNodes s \<and>
            set (visitedNodes s) \<subseteq> set (visitedNodes s1)"
    using visit_ordered(1) [OF acyclic, of g depth k s s1] s1 Cons.prems by simp
  have p2: "ordered g s' \<and> set ks \<subseteq> set (visitedNodes s') \<and> visitingNodes s' = [] \<and>
            set (visitedNodes s1) \<subseteq> set (visitedNodes s')"
    using Cons.IH [of s1] Cons.prems p1 rest by simp
  show ?case using p1 p2 by auto
qed

lemma positionOf_member: "x \<in> set xs \<Longrightarrow> length (takeWhile (\<lambda>y. y \<noteq> x) xs) < length xs"
  by (induction xs) auto

lemma positionOf_before:
  assumes "d \<in> set (takeWhile (\<lambda>y. y \<noteq> n) xs)"
  shows "positionOf d xs < positionOf n xs"
proof -
  let ?pre = "takeWhile (\<lambda>y. y \<noteq> n) xs"
  have "takeWhile (\<lambda>y. y \<noteq> d) (?pre @ dropWhile (\<lambda>y. y \<noteq> n) xs) = takeWhile (\<lambda>y. y \<noteq> d) ?pre"
    using assms by (rule takeWhile_until_member)
  then have "positionOf d xs = length (takeWhile (\<lambda>y. y \<noteq> d) ?pre)"
    by (simp add: positionOf_def)
  also have "\<dots> < length ?pre"
    using assms by (rule positionOf_member)
  finally show ?thesis by (simp add: positionOf_def)
qed

lemma topologicalOrder_sorted:
  assumes acyclic: "acyclic (dependencyEdges g)"
    and run: "topologicalOrder depth g = Some order"
  shows "distinct order \<and> set order = graphKeys g \<and>
         (\<forall>(n, d) \<in> dependencyEdges g. positionOf d order < positionOf n order)"
proof -
  let ?s0 = "\<lparr>sortedOrder = [], visitedNodes = [], visitingNodes = []\<rparr>"
  obtain s' where s': "visitTables depth g (map fst g) ?s0 = Some s'" and o: "order = sortedOrder s'"
    using run by (auto simp: topologicalOrder_def)
  have "ordered g ?s0" by (simp add: ordered_def)
  then have p: "ordered g s' \<and> set (map fst g) \<subseteq> set (visitedNodes s')"
    using visitTables_ordered [OF acyclic, of "map fst g" ?s0 depth s'] s'
    by (simp add: graphKeys_def)
  then have "set order = graphKeys g" "distinct order"
    using o by (auto simp: ordered_def graphKeys_def)
  moreover have "positionOf d order < positionOf n order" if "(n, d) \<in> dependencyEdges g" for n d
  proof -
    have "n \<in> graphKeys g"
      using that by (auto simp: dependencyEdges_def graphKeys_def dest: map_of_SomeD intro: rev_image_eqI)
    then have "n \<in> set (visitedNodes s')" using p by (auto simp: graphKeys_def)
    then have "d \<in> set (takeWhile (\<lambda>y. y \<noteq> n) order)"
      using p that o by (simp add: ordered_def)
    then show ?thesis by (rule positionOf_before)
  qed
  ultimately show ?thesis by auto
qed

lemma tableDependencies_no_self: "tableName \<notin> set (tableDependencies tableName table)"
proof -
  let ?f = "\<lambda>dependencies cell.
              if startsWithAt cell then
                (let referencedTable = takeWhile (\<lambda>c. c \<noteq> CHR ''['' \<and> c \<noteq> CHR ''{'') cell in
                 if referencedTable \<noteq> tableName then setAdd referencedTable dependencies
                 else dependencies)
              else dependencies"
  have "tableName \<notin> set acc \<Longrightarrow> tableName \<notin> set (foldl ?f acc cells)" for acc cells
  proof (induction cells arbitrary: acc)
    case Nil
    then show ?case by simp
  next
    case (Cons cell cells)
    have "tableName \<notin> set (?f acc cell)"
      using Cons.prems by (simp add: Let_def set_setAdd)
    then show ?case using Cons.IH [of "?f acc cell"] by simp
  qed
  then show ?thesis by (simp add: tableDependencies_def)
qed

lemma buildDependencyGraph_no_self:
  "(n, deps) \<in> set (buildDependencyGraph st) \<Longrightarrow> n \<notin> set deps"
  by (auto simp: buildDependencyGraph_def tableDependencies_no_self)

lemma dependencyEdges_built_irreflexive:
  "dependencyEdges (buildDependencyGraph st) - Id = dependencyEdges (buildDependencyGraph st)"
proof -
  have "(n, n) \<notin> dependencyEdges (buildDependencyGraph st)" for n
    using buildDependencyGraph_no_self [of n _ st]
    by (auto simp: dependencyEdges_def dest: map_of_SomeD)
  then show ?thesis by auto
qed

text \<open>
  Claim C8. The depth-first sort returns on every dependency graph, with or without
  cycles, as soon as its call stack may hold more frames than the graph has tables; this
  is the bound the encoder runs it with. The graph built from the registry has no
  self-edge. Whenever that graph, without self-edges, is acyclic, the emitted order lists
  every table exactly once and every table comes after all the tables it depends on.
\<close>

theorem computeTopologicalOrder_terminates_and_orders:
  "(\<forall>depth. length g < depth \<longrightarrow> (\<exists>order. topologicalOrder depth g = Some order)) \<and>
   (\<exists>order. computeTopologicalOrder (Suc (length (tableRegistry st))) st = Some order) \<and>
   (\<forall>n deps. (n, deps) \<in> set (buildDependencyGraph st) \<longrightarrow> n \<notin> set deps) \<and>
   (\<forall>depth order.
      acyclic (dependencyEdges (buildDependencyGraph st) - Id) \<longrightarrow>
      computeTopologicalOrder depth st = Some order \<longrightarrow>
        distinct order \<and> set order = set (map fst (tableRegistry st)) \<and>
        (\<forall>(n, d) \<in> dependencyEdges (buildDependencyGraph st).
            positionOf d order < positionOf n order))"
proof -
  have 1: "\<forall>depth. length g < depth \<longrightarrow> (\<exists>order. topologicalOrder depth g = Some order)"
    using topologicalOrder_returns by blast
  have "length (buildDependencyGraph st) < Suc (length (tableRegistry st))"
    by (simp add: buildDependencyGraph_def)
  then have 2: "\<exists>order. computeTopologicalOrder (Suc (length (tableRegistry st))) st = Some order"
    unfolding computeTopologicalOrder_def by (rule topologicalOrder_returns)
  have 3: "\<forall>n deps. (n, deps) \<in> set (buildDependencyGraph st) \<longrightarrow> n \<notin> set deps"
    using buildDependencyGraph_no_self by blast
  have k: "graphKeys (buildDependencyGraph st) = set (map fst (tableRegistry st))"
    by (auto simp: graphKeys_def buildDependencyGraph_def intro: rev_image_eqI)
  have 4: "\<forall>depth order.
      acyclic (dependencyEdges (buildDependencyGraph st) - Id) \<longrightarrow>
      computeTopologicalOrder depth st = Some order \<longrightarrow>
        distinct order \<and> set order = set (map fst (tableRegistry st)) \<and>
        (\<forall>(n, d) \<in> dependencyEdges (buildDependencyGraph st).
            positionOf d order < positionOf n order)"
    using topologicalOrder_sorted [of "buildDependencyGraph st"]
    unfolding dependencyEdges_built_irreflexive computeTopologicalOrder_def k [symmetric]
    by blast
  show ?thesis using 1 2 3 4 by blast
qed

text \<open>
  The theorem at a cyclic graph with a self-edge, and at a registry whose table
  \<^verbatim>\<open>@team\<close> is registered first and refers to the table \<^verbatim>\<open>@lead\<close>.
\<close>

theorem computeTopologicalOrder_terminates_and_orders_witness:
  "topologicalOrder 3 cyclicGraph = Some [''@b'', ''@a''] \<and>
   acyclic (dependencyEdges (buildDependencyGraph linkedTables) - Id) \<and>
   computeTopologicalOrder 3 linkedTables = Some [''@lead'', ''@team''] \<and>
   (''@team'', ''@lead'') \<in> dependencyEdges (buildDependencyGraph linkedTables) \<and>
   positionOf ''@lead'' [''@lead'', ''@team''] < positionOf ''@team'' [''@lead'', ''@team'']"
proof -
  note th = computeTopologicalOrder_terminates_and_orders [of cyclicGraph linkedTables]
  have "length cyclicGraph < 3" by (simp add: cyclicGraph_def)
  then obtain order where "topologicalOrder 3 cyclicGraph = Some order"
    using th by blast
  moreover have "topologicalOrder 3 cyclicGraph = Some [''@b'', ''@a'']"
    by code_simp
  ultimately have 1: "topologicalOrder 3 cyclicGraph = Some [''@b'', ''@a'']" by simp
  have g: "buildDependencyGraph linkedTables = [(''@team'', [''@lead'']), (''@lead'', [])]"
    by code_simp
  have e: "dependencyEdges (buildDependencyGraph linkedTables) = {(''@team'', ''@lead'')}"
    unfolding g by (auto simp: dependencyEdges_def graphKeys_def split: if_splits)
  have a: "acyclic (dependencyEdges (buildDependencyGraph linkedTables) - Id)"
  proof -
    have "{(''@team'', ''@lead'')} - Id = {(''@team'', ''@lead'')}" by auto
    moreover have "acyclic ({} :: (string \<times> string) set)"
      by (simp add: acyclic_def)
    then have "acyclic {(''@team'', ''@lead'')}"
      by (simp add: acyclic_insert)
    ultimately show ?thesis unfolding e by simp
  qed
  have c: "computeTopologicalOrder 3 linkedTables = Some [''@lead'', ''@team'']"
    by code_simp
  have m: "(''@team'', ''@lead'') \<in> dependencyEdges (buildDependencyGraph linkedTables)"
    unfolding e by simp
  have "\<forall>(n, d) \<in> dependencyEdges (buildDependencyGraph linkedTables).
          positionOf d [''@lead'', ''@team''] < positionOf n [''@lead'', ''@team'']"
    using th a c by blast
  then have "positionOf ''@lead'' [''@lead'', ''@team''] < positionOf ''@team'' [''@lead'', ''@team'']"
    using m by blast
  then show ?thesis using 1 a c m by blast
qed

section \<open>Reference resolver: unregistered tables\<close>




section \<open>Arrays of records without columns\<close>




end
